theory Spec2Isabelle
  imports Main
begin

section \<open>Python strings\<close>

text \<open>
  A Python \<open>str\<close> is modelled as a \<open>string\<close>: a list of 8-bit characters, read as the
  code points U+0000 .. U+00FF. On these code points \<open>str.isspace\<close> and the regular
  expression class \<open>\s\<close> hold exactly for the twelve characters of \<open>is_space\<close>, and the
  class \<open>\d\<close> holds exactly for the ASCII digits.
\<close>

type_synonym bytes = "char list"

definition is_space :: "char \<Rightarrow> bool" where
  "is_space c = (c \<in> set [CHR 0x09, CHR 0x0A, CHR 0x0B, CHR 0x0C, CHR 0x0D,
                          CHR 0x1C, CHR 0x1D, CHR 0x1E, CHR 0x1F, CHR 0x20,
                          CHR 0x85, CHR 0xA0])"

definition is_digit :: "char \<Rightarrow> bool" where
  "is_digit c = (c \<in> set ''0123456789'')"

definition lstrip :: "string \<Rightarrow> string" where
  "lstrip s = dropWhile is_space s"

definition rstrip :: "string \<Rightarrow> string" where
  "rstrip s = rev (dropWhile is_space (rev s))"

definition strip :: "string \<Rightarrow> string" where
  "strip s = lstrip (rstrip s)"

text \<open>\<open>str.lower\<close> on the code points below 256: A-Z and the Latin-1 capitals.\<close>

definition lower_char :: "char \<Rightarrow> char" where
  "lower_char c =
     (let n = (of_char c :: nat)
      in if (65 \<le> n \<and> n \<le> 90) \<or> (192 \<le> n \<and> n \<le> 222 \<and> n \<noteq> 215)
         then char_of (n + 32) else c)"

definition lower :: "string \<Rightarrow> string" where
  "lower s = map lower_char s"

text \<open>\<open>str(n)\<close> for a Python integer: decimal digits, with a minus sign when negative.\<close>

definition digit_char :: "nat \<Rightarrow> char" where
  "digit_char d = ''0123456789'' ! d"

definition digit_val :: "char \<Rightarrow> nat" where
  "digit_val c = of_char c - 48"

fun str_nat :: "nat \<Rightarrow> string" where
  "str_nat n = (if n < 10 then [digit_char n] else str_nat (n div 10) @ [digit_char (n mod 10)])"

declare str_nat.simps [simp del]

definition str_int :: "int \<Rightarrow> string" where
  "str_int n = (if n < 0 then CHR ''-'' # str_nat (nat (- n)) else str_nat (nat n))"


section \<open>Placeholder tokens (extractor.py)\<close>

text \<open>\<open>_make_ph_name\<close>: the f-string \<open>{{S<slide_idx + 1>_P<shape_idx + 1>}}\<close>.\<close>

definition make_ph_name :: "int \<Rightarrow> int \<Rightarrow> string" where
  "make_ph_name slide_idx shape_idx =
     ''{{S'' @ str_int (slide_idx + 1) @ ''_P'' @ str_int (shape_idx + 1) @ ''}}''"

text \<open>
  Modelled from the spec: \<open>parseToken\<close>, which the repository does not define (the
  renderer only recognises a token through \<open>_placeholder_only_pat\<close> and never decodes
  it). Following section 4.1, it is the inverse of \<open>makeToken\<close> and fails on a string
  that is not of the form \<open>{{S<digits>_P<digits>}}\<close>.
\<close>

definition nat_of_digits :: "string \<Rightarrow> nat" where
  "nat_of_digits ds = foldl (\<lambda>acc c. 10 * acc + digit_val c) 0 ds"

definition int_of_digits :: "string \<Rightarrow> int" where
  "int_of_digits ds = int (nat_of_digits ds)"

definition expect :: "string \<Rightarrow> string \<Rightarrow> string option" where
  "expect lit s = (if take (length lit) s = lit then Some (drop (length lit) s) else None)"

definition parseToken :: "string \<Rightarrow> (int \<times> int) option" where
  "parseToken tok =
     (case expect ''{{S'' tok of None \<Rightarrow> None
      | Some r1 \<Rightarrow>
          let d1 = takeWhile is_digit r1 in
          if d1 = [] then None
          else (case expect ''_P'' (dropWhile is_digit r1) of None \<Rightarrow> None
                | Some r2 \<Rightarrow>
                    let d2 = takeWhile is_digit r2 in
                    if d2 = [] then None
                    else if dropWhile is_digit r2 = ''}}''
                         then Some (int_of_digits d1 - 1, int_of_digits d2 - 1)
                         else None))"


section \<open>Stock-photo search (image_utils.py)\<close>

datatype exn =
    UnsplashError
  | RequestException
  | KeyError
  | IndexError
  | AttributeError
  | ValueError
  | OtherException

text \<open>
  One result of the search API is its \<open>urls\<close> dictionary (size name to URL). The network
  and the configuration are a record of what each call answers: \<open>ensure_key\<close> is the
  result of \<open>_ensure_key("unsplash_key")\<close> (\<open>None\<close> when it raises \<open>KeyError\<close>),
  \<open>search_get\<close> the decoded results of the search request or the exception it raises,
  \<open>image_get\<close> the same for one download, \<open>shuffle\<close> the permutation \<open>random.shuffle\<close>
  picks.
\<close>

type_synonym item = "(string \<times> string) list"

record net =
  ensure_key :: "string option"
  search_get :: "string \<Rightarrow> string \<Rightarrow> int \<Rightarrow> string \<Rightarrow> string \<Rightarrow> exn + item list"
  image_get :: "string \<Rightarrow> exn + bytes"
  shuffle :: "bytes list \<Rightarrow> bytes list"

fun download_all :: "net \<Rightarrow> string \<Rightarrow> item list \<Rightarrow> bytes list \<Rightarrow> exn + bytes list" where
  "download_all w sz [] blobs = Inr blobs"
| "download_all w sz (it # items) blobs =
     (case map_of it sz of
        None \<Rightarrow> Inl KeyError
      | Some img_url \<Rightarrow>
          (case image_get w img_url of
             Inr content \<Rightarrow> download_all w sz items (blobs @ [content])
           | Inl RequestException \<Rightarrow> download_all w sz items blobs
           | Inl e \<Rightarrow> Inl e))"

definition unsplash_search ::
  "net \<Rightarrow> string \<Rightarrow> int \<Rightarrow> int option \<Rightarrow> string \<Rightarrow> string \<Rightarrow> string \<Rightarrow> exn + bytes list" where
  "unsplash_search w query per_page0 limit orientation0 sz0 order_by0 =
     (let per_page = (case limit of Some l \<Rightarrow> l | None \<Rightarrow> per_page0) in
      if per_page \<le> 0 then Inr []
      else
        let orientation = lower orientation0;
            sz = lower sz0;
            order_by = lower order_by0
        in
        if orientation \<notin> {''landscape'', ''portrait'', ''squarish''} then Inl UnsplashError
        else if sz \<notin> {''small'', ''regular'', ''full''} then Inl UnsplashError
        else if order_by \<notin> {''latest'', ''relevant''} then Inl UnsplashError
        else
          (case ensure_key w of
             None \<Rightarrow> Inr []
           | Some client_id \<Rightarrow>
               (case search_get w query orientation per_page order_by client_id of
                  Inl RequestException \<Rightarrow> Inl UnsplashError
                | Inl e \<Rightarrow> Inl e
                | Inr results \<Rightarrow>
                    if results = [] then Inr []
                    else (case download_all w sz results [] of
                            Inl e \<Rightarrow> Inl e
                          | Inr blobs \<Rightarrow> Inr (shuffle w blobs)))))"



section \<open>The deck (python-pptx objects as the code reads them)\<close>

text \<open>
  A text frame is its list of paragraphs; \<open>text_frame.text\<close> is the paragraphs' texts
  joined by a line feed. A shape either has a text frame or not
  (\<open>getattr(shape, "has_text_frame", False)\<close>). A slide has its shapes in order, the
  position of its title placeholder when it has one (\<open>slide.shapes.title\<close>) and the
  relationships of its part, a dictionary from relationship id to relationship, kept in
  the order \<open>rels.values()\<close> enumerates. A relationship of python-pptx has a type and a
  target, which is a part of the package or, for a linked file, an external reference.
  Its attributes are \<open>rId\<close>, \<open>reltype\<close>, \<open>is_external\<close>, \<open>target_part\<close> and
  \<open>target_ref\<close>; \<open>target_part\<close> raises \<open>ValueError\<close> on an external relationship,
  and there is no attribute \<open>target\<close>. The parts' payloads are a store from part
  address to bytes, so two relationships with the same target share one payload.
  \<open>slide_layouts\<close> holds, for each slide layout of the deck, the slide that
  \<open>add_slide\<close> makes from it.
\<close>

datatype pp_align = LEFT | CENTER | RIGHT | JUSTIFY | DISTRIBUTE

record pptx_paragraph =
  para_text :: string
  para_alignment :: "pp_align option"
  para_font_size :: "nat option"

type_synonym text_frame = "pptx_paragraph list"

datatype rel_target = Part nat | External string

record rel =
  reltype :: string
  rtarget :: rel_target

record slide =
  shapes :: "text_frame option list"
  title :: "nat option"
  rels :: "(string \<times> rel) list"

record presentation =
  slides :: "slide list"
  slide_layouts :: "slide list"
  blobs :: "nat \<Rightarrow> bytes"

definition target_part :: "rel \<Rightarrow> exn + nat" where
  "target_part rl = (case rtarget rl of Part a \<Rightarrow> Inr a | External ref \<Rightarrow> Inl ValueError)"

definition has_text_frame :: "text_frame option \<Rightarrow> bool" where
  "has_text_frame sh = (sh \<noteq> None)"

text \<open>\<open>"\n".join(xs)\<close>\<close>

fun join_nl :: "string list \<Rightarrow> string" where
  "join_nl [] = []"
| "join_nl [x] = x"
| "join_nl (x # y # ys) = x @ CHR 0x0A # join_nl (y # ys)"

definition tf_text :: "text_frame \<Rightarrow> string" where
  "tf_text tf = join_nl (map para_text tf)"


section \<open>Extraction (extractor.py)\<close>

definition SHORT_LIMIT :: nat where
  "SHORT_LIMIT = 10"

definition paragraph_align_tag :: "pptx_paragraph \<Rightarrow> string" where
  "paragraph_align_tag para =
     (if para_alignment para = Some CENTER then ''<div align='' @ [CHR 0x27] @ ''center'' @ [CHR 0x27] @ ''>''
      else if para_alignment para = Some RIGHT then ''<div align='' @ [CHR 0x27] @ ''right'' @ [CHR 0x27] @ ''>''
      else [])"

text \<open>\<open>len(shape.text_frame.text.replace("\n", "").strip())\<close>\<close>

definition text_len :: "string \<Rightarrow> nat" where
  "text_len t = length (strip (filter (\<lambda>c. c \<noteq> CHR 0x0A) t))"

type_synonym ph_item = "string \<times> nat \<times> string"
type_synonym placeholder_map = "string \<rightharpoonup> (int \<times> int)"

text \<open>
  The loop over \<open>enumerate(slide.shapes)\<close>: it appends to \<open>items\<close> and stores into
  \<open>ph_map\<close>; both are threaded through.
\<close>

fun collect_items ::
  "int \<Rightarrow> int \<Rightarrow> text_frame option list \<Rightarrow> ph_item list \<times> placeholder_map
   \<Rightarrow> ph_item list \<times> placeholder_map" where
  "collect_items s_idx sh_idx [] st = st"
| "collect_items s_idx sh_idx (None # shs) st = collect_items s_idx (sh_idx + 1) shs st"
| "collect_items s_idx sh_idx (Some tf # shs) (items, ph_map) =
     (let ph = make_ph_name s_idx sh_idx;
          ln = text_len (tf_text tf);
          align_tag = (case tf of [] \<Rightarrow> [] | p # _ \<Rightarrow> paragraph_align_tag p)
      in collect_items s_idx (sh_idx + 1) shs
           (items @ [(ph, ln, align_tag)], ph_map(ph \<mapsto> (s_idx, sh_idx))))"

text \<open>The segment of one short item, and the line of one long item.\<close>

definition short_seg :: "ph_item \<Rightarrow> string" where
  "short_seg it =
     (case it of (ph_j, ln_j, tag_j) \<Rightarrow>
        ph_j @ (if tag_j \<noteq> [] then '' '' @ tag_j else []) @ '' <!--len:'' @ str_nat ln_j @ ''-->'')"

definition long_line :: "ph_item \<Rightarrow> string" where
  "long_line it =
     (case it of (ph, ln, tag) \<Rightarrow>
        ''- '' @ ph @ (if tag \<noteq> [] then '' '' @ tag else []) @ '' <!--len:'' @ str_nat ln @ ''-->'')"

text \<open>The inner \<open>while j < len(items) and items[j][1] <= SHORT_LIMIT\<close>.\<close>

function short_block :: "ph_item list \<Rightarrow> nat \<Rightarrow> string list \<Rightarrow> nat \<times> string list" where
  "short_block items j block =
     (if j < length items \<and> fst (snd (items ! j)) \<le> SHORT_LIMIT
      then short_block items (j + 1) (block @ [short_seg (items ! j)])
      else (j, block))"
  by pat_completeness auto
termination
  by (relation "measure (\<lambda>(items, j, block). length items - j)") auto

declare short_block.simps [simp del]

lemma short_block_bounds:
  "j \<le> fst (short_block items j block) \<and>
   (j \<le> length items \<longrightarrow> fst (short_block items j block) \<le> length items)"
proof (induction items j block rule: short_block.induct)
  case (1 items j block)
  show ?case
  proof (cases "j < length items \<and> fst (snd (items ! j)) \<le> SHORT_LIMIT")
    case True
    with 1 show ?thesis by (subst short_block.simps, subst (2) short_block.simps) auto
  next
    case False
    then show ?thesis by (subst short_block.simps, subst (2) short_block.simps) auto
  qed
qed

lemma short_block_progress:
  assumes "i < length items" "fst (snd (items ! i)) \<le> SHORT_LIMIT"
  shows "i < fst (short_block items i block) \<and> fst (short_block items i block) \<le> length items"
proof -
  have "short_block items i block = short_block items (i + 1) (block @ [short_seg (items ! i)])"
    using assms by (subst short_block.simps) simp
  moreover have "i + 1 \<le> fst (short_block items (i + 1) (block @ [short_seg (items ! i)]))"
    and "fst (short_block items (i + 1) (block @ [short_seg (items ! i)])) \<le> length items"
    using short_block_bounds [of "i + 1" items] assms(1) by auto
  ultimately show ?thesis by simp
qed

text \<open>The outer \<open>while i < len(items)\<close>, appending to \<open>md_lines\<close>.\<close>

function emit_items :: "ph_item list \<Rightarrow> nat \<Rightarrow> string list \<Rightarrow> string list" where
  "emit_items items i md_lines =
     (if i < length items
      then (if fst (snd (items ! i)) \<le> SHORT_LIMIT
            then emit_items items (fst (short_block items i []))
                   (md_lines @ map (\<lambda>seg. ''### '' @ seg) (snd (short_block items i [])))
            else emit_items items (i + 1) (md_lines @ [long_line (items ! i)]))
      else md_lines)"
  by pat_completeness auto
termination
proof (relation "measure (\<lambda>(items, i, md_lines). length items - i)")
  show "wf (measure (\<lambda>(items, i, md_lines). length items - i))" by simp
next
  fix items :: "ph_item list" and i :: nat and md_lines :: "string list"
  assume "i < length items" "fst (snd (items ! i)) \<le> SHORT_LIMIT"
  then show "((items, fst (short_block items i []), md_lines @ map ((@) ''### '') (snd (short_block items i []))),
              items, i, md_lines) \<in> measure (\<lambda>(items, i, md_lines). length items - i)"
    using short_block_progress [of i items "[]"] by auto
next
  fix items :: "ph_item list" and i :: nat and md_lines :: "string list"
  assume "i < length items"
  then show "((items, i + 1, md_lines @ [long_line (items ! i)]), items, i, md_lines)
             \<in> measure (\<lambda>(items, i, md_lines). length items - i)"
    by auto
qed

declare emit_items.simps [simp del]

text \<open>One iteration of \<open>for s_idx, slide in enumerate(prs.slides)\<close>, and the loop.\<close>

definition extract_slide ::
  "int \<Rightarrow> slide \<Rightarrow> string list \<times> placeholder_map \<Rightarrow> string list \<times> placeholder_map" where
  "extract_slide s_idx sl st =
     (case st of (md_lines0, ph_map0) \<Rightarrow>
        let md_lines = md_lines0 @ [''## Slide '' @ str_int (s_idx + 1)];
            (items, ph_map) = collect_items s_idx 0 (shapes sl) ([], ph_map0)
        in if items = [] then (md_lines @ [''(No text on this slide)'' @ [CHR 0x0A]], ph_map)
           else (emit_items items 0 md_lines @ [[]], ph_map))"

fun extract_slides ::
  "int \<Rightarrow> slide list \<Rightarrow> string list \<times> placeholder_map \<Rightarrow> string list \<times> placeholder_map" where
  "extract_slides s_idx [] st = st"
| "extract_slides s_idx (sl # sls) st = extract_slides (s_idx + 1) sls (extract_slide s_idx sl st)"

definition pptx_to_markdown :: "presentation \<Rightarrow> string \<times> placeholder_map" where
  "pptx_to_markdown prs =
     (case extract_slides 0 (slides prs) ([], Map.empty) of
        (md_lines, ph_map) \<Rightarrow> (join_nl md_lines, ph_map))"

text \<open>
  The line the specification gives to one item: a sub-heading when the length is at
  most the threshold 10, a bullet otherwise.
\<close>

definition is_short :: "ph_item \<Rightarrow> bool" where
  "is_short it = (fst (snd it) \<le> SHORT_LIMIT)"

definition item_line :: "ph_item \<Rightarrow> string" where
  "item_line it =
     (case it of (ph, ln, tag) \<Rightarrow>
        (if ln \<le> 10 then ''### '' else ''- '') @ ph @ (if tag = [] then [] else '' '' @ tag)
        @ '' <!--len:'' @ str_nat ln @ ''-->'')"


section \<open>Writing text into a slide (ppt\_builder.py)\<close>

text \<open>
  The bullet U+2022 that \<open>_clean_md_line\<close> writes and \<open>_placeholder_only_pat\<close> accepts
  lies outside the 8-bit characters. The code 0x95 stands for it: the strings of this
  theory are over the characters U+0000 to U+00FF without the control character U+0095,
  and U+2022, which like U+0095 is neither white space, nor a digit, nor a cased letter.
\<close>

definition BULLET :: char where
  "BULLET = CHR 0x95"

text \<open>
  \<open>_bullet_pat = ^\s*([-*]|[0-9]+[.)])\s+\<close>, matched at the start of the line: the
  result is the text after the match. Every repetition in the pattern is followed by a
  character outside its class, so the greedy choice is the only one that can succeed.
\<close>

definition bullet_match :: "string \<Rightarrow> string option" where
  "bullet_match s =
     (let r0 = dropWhile is_space s;
          ds = takeWhile is_digit r0;
          r1 = (case r0 of
                  [] \<Rightarrow> None
                | c # cs \<Rightarrow>
                    if c = CHR ''-'' \<or> c = CHR ''*'' then Some cs
                    else if ds \<noteq> [] then
                      (case dropWhile is_digit r0 of
                         [] \<Rightarrow> None
                       | d # rest \<Rightarrow> if d = CHR ''.'' \<or> d = CHR '')'' then Some rest else None)
                    else None)
      in case r1 of
           None \<Rightarrow> None
         | Some r \<Rightarrow> (case r of [] \<Rightarrow> None
                      | c # cs \<Rightarrow> if is_space c then Some (dropWhile is_space cs) else None))"

definition clean_md_line :: "string \<Rightarrow> string" where
  "clean_md_line line0 =
     (let line = strip line0 in
      if take 1 line = ''#'' then strip (dropWhile (\<lambda>c. c = CHR ''#'') line)
      else (case bullet_match line of
              Some rest \<Rightarrow> BULLET # CHR '' '' # strip rest
            | None \<Rightarrow> line))"

text \<open>
  \<open>_placeholder_only_pat =
     ^\s*(?:[-*]|[0-9]+[.)]|\<bullet>)?\s*\{\{S\d+_P\d+\}\}\s*(?:<[^>]+>\s*)?$\<close> with
  \<open>re.I\<close>, matched at the start of the text. \<open>ph_prefix\<close> is the optional list marker,
  \<open>ph_token\<close> the token, \<open>ph_tail\<close> what may follow it up to the end of the text.
\<close>

definition ph_prefix :: "string \<Rightarrow> string" where
  "ph_prefix r0 =
     (case r0 of
        [] \<Rightarrow> r0
      | c # cs \<Rightarrow>
          if c = CHR ''-'' \<or> c = CHR ''*'' \<or> c = BULLET then cs
          else if is_digit c then
            (case dropWhile is_digit r0 of
               [] \<Rightarrow> r0
             | d # rest \<Rightarrow> if d = CHR ''.'' \<or> d = CHR '')'' then rest else r0)
          else r0)"

definition expect_digits :: "string \<Rightarrow> string option" where
  "expect_digits s = (if takeWhile is_digit s = [] then None else Some (dropWhile is_digit s))"

definition expect_ci :: "char \<Rightarrow> string \<Rightarrow> string option" where
  "expect_ci l s = (case s of [] \<Rightarrow> None | c # cs \<Rightarrow> if lower_char c = l then Some cs else None)"

definition ph_token :: "string \<Rightarrow> string option" where
  "ph_token s =
     Option.bind (expect ''{{'' s) (\<lambda>r1.
     Option.bind (expect_ci CHR ''s'' r1) (\<lambda>r2.
     Option.bind (expect_digits r2) (\<lambda>r3.
     Option.bind (expect ''_'' r3) (\<lambda>r4.
     Option.bind (expect_ci CHR ''p'' r4) (\<lambda>r5.
     Option.bind (expect_digits r5) (\<lambda>r6.
     expect ''}}'' r6))))))"

definition ph_tail :: "string \<Rightarrow> bool" where
  "ph_tail t =
     (case dropWhile is_space t of
        [] \<Rightarrow> True
      | c # cs \<Rightarrow>
          c = CHR ''<'' \<and> takeWhile (\<lambda>x. x \<noteq> CHR ''>'') cs \<noteq> []
          \<and> (case dropWhile (\<lambda>x. x \<noteq> CHR ''>'') cs of
                [] \<Rightarrow> False
              | g # rest \<Rightarrow> dropWhile is_space rest = []))"

definition is_placeholder_only :: "string \<Rightarrow> bool" where
  "is_placeholder_only text =
     (case ph_token (dropWhile is_space (ph_prefix (dropWhile is_space text))) of
        None \<Rightarrow> False
      | Some t \<Rightarrow> ph_tail t)"

text \<open>
  The text-frame operations of python-pptx that \<open>_write_page_to_slide\<close> uses:
  \<open>add_textbox(...).text_frame\<close> is a frame with one empty paragraph; \<open>tf.clear()\<close>
  removes every paragraph but the first and empties the first, keeping its properties,
  and raises \<open>IndexError\<close> on a frame without paragraphs (it reads \<open>paragraphs[0]\<close>);
  \<open>tf.text = s\<close> replaces the paragraphs by one per line of \<open>s\<close>; \<open>para.text = s\<close>
  stores a line feed of \<open>s\<close> as a line break, which reads back as a vertical tab;
  \<open>tf.paragraphs[0]\<close> raises on no paragraph.
\<close>

definition empty_para :: pptx_paragraph where
  "empty_para = \<lparr>para_text = [], para_alignment = None, para_font_size = None\<rparr>"

definition new_textbox :: text_frame where
  "new_textbox = [empty_para]"

definition tf_clear :: "text_frame \<Rightarrow> exn + text_frame" where
  "tf_clear tf = (case tf of [] \<Rightarrow> Inl IndexError | p # _ \<Rightarrow> Inr [p\<lparr>para_text := []\<rparr>])"

text \<open>The loop \<open>for tf in body_frames: tf.clear()\<close>; its first exception ends it.\<close>

fun clear_frames :: "text_frame list \<Rightarrow> exn + text_frame list" where
  "clear_frames [] = Inr []"
| "clear_frames (tf # tfs) =
     (case tf_clear tf of
        Inl e \<Rightarrow> Inl e
      | Inr cleared \<Rightarrow>
          (case clear_frames tfs of
             Inl e \<Rightarrow> Inl e
           | Inr rest \<Rightarrow> Inr (cleared # rest)))"

definition para_stored_text :: "string \<Rightarrow> string" where
  "para_stored_text s = map (\<lambda>c. if c = CHR 0x0A then CHR 0x0B else c) s"

fun split_nl :: "string \<Rightarrow> string \<Rightarrow> string list" where
  "split_nl acc [] = [rev acc]"
| "split_nl acc (c # cs) = (if c = CHR 0x0A then rev acc # split_nl [] cs else split_nl (c # acc) cs)"

definition tf_set_text :: "string \<Rightarrow> text_frame" where
  "tf_set_text s = map (\<lambda>t. empty_para\<lparr>para_text := t\<rparr>) (split_nl [] s)"

definition py_index :: "'a list \<Rightarrow> nat \<Rightarrow> exn + 'a" where
  "py_index xs i = (if i < length xs then Inr (xs ! i) else Inl IndexError)"

text \<open>
  \<open>body_frames\<close>: the text frames of the shapes other than the title, in shape order,
  each with the position of its shape.
\<close>

fun body_frames_of :: "nat \<Rightarrow> nat option \<Rightarrow> text_frame option list \<Rightarrow> (nat \<times> text_frame) list" where
  "body_frames_of j title_tf [] = []"
| "body_frames_of j title_tf (None # shs) = body_frames_of (j + 1) title_tf shs"
| "body_frames_of j title_tf (Some tf # shs) =
     (if title_tf = None \<or> title_tf \<noteq> Some j
      then (j, tf) # body_frames_of (j + 1) title_tf shs
      else body_frames_of (j + 1) title_tf shs)"

text \<open>
  The three statements that write one content line into a frame:
  \<open>para = tf.add_paragraph() if tf.text else tf.paragraphs[0]\<close>, then the text and the
  font size of \<open>para\<close>.
\<close>

definition write_line :: "text_frame \<Rightarrow> string \<Rightarrow> exn + text_frame" where
  "write_line tf cleaned =
     (if tf_text tf \<noteq> []
      then Inr (tf @ [empty_para\<lparr>para_text := para_stored_text cleaned, para_font_size := Some 18\<rparr>])
      else (case tf of
              [] \<Rightarrow> Inl IndexError
            | p # ps \<Rightarrow>
                Inr (p\<lparr>para_text := para_stored_text cleaned, para_font_size := Some 18\<rparr> # ps)))"

text \<open>
  The loop \<open>for raw in lines[1:]\<close> over the body frames, with \<open>frame_idx\<close>. The frames
  are held by position in \<open>body_frames\<close> and written back to their shapes afterwards.
\<close>

fun write_body :: "text_frame list \<Rightarrow> nat \<Rightarrow> string list \<Rightarrow> exn + text_frame list" where
  "write_body body_frames frame_idx [] = Inr body_frames"
| "write_body body_frames frame_idx (raw # rest) =
     (let cleaned = clean_md_line raw in
      if is_placeholder_only cleaned then write_body body_frames (frame_idx + 1) rest
      else if frame_idx \<ge> length body_frames then write_body body_frames (frame_idx + 1) rest
      else (case py_index body_frames frame_idx of
              Inl e \<Rightarrow> Inl e
            | Inr tf \<Rightarrow>
                (case write_line tf cleaned of
                   Inl e \<Rightarrow> Inl e
                 | Inr tf' \<Rightarrow> write_body (body_frames[frame_idx := tf']) (frame_idx + 1) rest)))"

definition put_frames :: "(nat \<times> text_frame) list \<Rightarrow> text_frame option list \<Rightarrow> text_frame option list" where
  "put_frames fs shs = fold (\<lambda>(j, tf) acc. acc[j := Some tf]) fs shs"

text \<open>The title textbox the code creates when the template has none.\<close>

definition new_title_box :: "string \<Rightarrow> text_frame" where
  "new_title_box first_line =
     (case tf_set_text first_line of
        [] \<Rightarrow> []
      | p # ps \<Rightarrow> p\<lparr>para_font_size := Some 32, para_alignment := Some LEFT\<rparr> # ps)"

definition write_page_to_slide :: "slide \<Rightarrow> string list \<Rightarrow> exn + slide" where
  "write_page_to_slide sl lines =
     (case lines of
        [] \<Rightarrow> Inr sl
      | line0 # body_lines \<Rightarrow>
          let title_tf = title sl;
              found = body_frames_of 0 title_tf (shapes sl);
              shapes1 = (if found = [] then shapes sl @ [Some new_textbox] else shapes sl);
              frames1 = (if found = [] then [(length (shapes sl), new_textbox)] else found)
          in case clear_frames (map snd frames1) of
               Inl e \<Rightarrow> Inl e
             | Inr body_frames \<Rightarrow>
                 let first_line = clean_md_line line0;
                     shapes2 =
                       (if \<not> is_placeholder_only first_line
                        then (case title_tf of
                                Some t \<Rightarrow> shapes1[t := Some (tf_set_text first_line)]
                              | None \<Rightarrow> shapes1 @ [Some (new_title_box first_line)])
                        else shapes1)
                 in case write_body body_frames 0 body_lines of
                      Inl e \<Rightarrow> Inl e
                    | Inr written \<Rightarrow>
                        Inr (sl\<lparr>shapes := put_frames (zip (map fst frames1) written) shapes2\<rparr>))"


section \<open>Splitting the markdown into pages (ppt\_builder.py)\<close>

abbreviation NL :: char where
  "NL \<equiv> CHR 0x0A"

text \<open>\<open>md.strip("\n")\<close>\<close>

definition strip_nl :: "string \<Rightarrow> string" where
  "strip_nl s = rev (dropWhile (\<lambda>c. c = NL) (rev (dropWhile (\<lambda>c. c = NL) s)))"

text \<open>
  \<open>re.search(r"\n?---+\n", md)\<close>: \<open>hr_search_at\<close> is a match starting at the first
  character, \<open>hr_search\<close> tries every position.
\<close>

definition skip_opt_nl :: "string \<Rightarrow> string" where
  "skip_opt_nl s = (case s of [] \<Rightarrow> [] | c # cs \<Rightarrow> if c = NL then cs else s)"

definition hr_search_at :: "string \<Rightarrow> bool" where
  "hr_search_at s =
     (let r = skip_opt_nl s
      in 3 \<le> length (takeWhile (\<lambda>c. c = CHR ''-'') r)
         \<and> take 1 (dropWhile (\<lambda>c. c = CHR ''-'') r) = [NL])"

fun hr_search :: "string \<Rightarrow> bool" where
  "hr_search [] = False"
| "hr_search (c # cs) = (hr_search_at (c # cs) \<or> hr_search cs)"

text \<open>
  \<open>re.split(r"\n?---+\n+", md)\<close>: \<open>hr_split_at\<close> gives the text after a match that
  starts at the first character; the pieces are the texts between the matches.
\<close>

definition hr_split_at :: "string \<Rightarrow> string option" where
  "hr_split_at s =
     (let r = skip_opt_nl s;
          r2 = dropWhile (\<lambda>c. c = CHR ''-'') r
      in if 3 \<le> length (takeWhile (\<lambda>c. c = CHR ''-'') r) \<and> take 1 r2 = [NL]
         then Some (dropWhile (\<lambda>c. c = NL) r2) else None)"

lemma skip_opt_nl_length: "length (skip_opt_nl s) \<le> length s"
  by (cases s) (simp_all add: skip_opt_nl_def)

lemma hr_split_at_shorter: "hr_split_at s = Some rest \<Longrightarrow> length rest < length s"
proof -
  assume a: "hr_split_at s = Some rest"
  define r where "r = skip_opt_nl s"
  define r2 where "r2 = dropWhile (\<lambda>c. c = CHR ''-'') r"
  from a have t: "3 \<le> length (takeWhile (\<lambda>c. c = CHR ''-'') r)" and rest: "rest = dropWhile (\<lambda>c. c = NL) r2"
    by (auto simp: hr_split_at_def Let_def r_def r2_def split: if_splits)
  have "length r = length (takeWhile (\<lambda>c. c = CHR ''-'') r) + length r2"
    unfolding r2_def by (metis length_append takeWhile_dropWhile_id)
  with t have "length r2 < length r" by linarith
  moreover have "length rest \<le> length r2" unfolding rest by (rule length_dropWhile_le)
  moreover have "length r \<le> length s" unfolding r_def by (rule skip_opt_nl_length)
  ultimately show ?thesis by simp
qed

function hr_split :: "string \<Rightarrow> string \<Rightarrow> string list" where
  "hr_split acc [] = [rev acc]"
| "hr_split acc (c # cs) =
     (case hr_split_at (c # cs) of
        Some rest \<Rightarrow> rev acc # hr_split [] rest
      | None \<Rightarrow> hr_split (c # acc) cs)"
  by pat_completeness auto
termination
  by (relation "measure (\<lambda>(acc, s). length s)") (auto dest: hr_split_at_shorter)

text \<open>
  \<open>_md_slide_pat = ^#{1,6}\s*slide\s*[-_ ]?\s*\d+\s*$\<close> with \<open>re.I | re.M\<close>.
  \<open>trail\<close> is the end of the pattern, \<open>\s*$\<close>: the greedy white space gives characters
  back until \<open>$\<close> holds, at the end of the text or before a line feed; the result is
  the number of characters it keeps. \<open>md_slide_match\<close> is the length of a match starting
  at the first character of its argument, which the caller knows to be at the start of
  a line. Before the last \<open>\s*\<close> every repetition is followed by a character outside
  its class (a space taken by \<open>[-_ ]?\<close> is white space all the same), so only the greedy
  choice can succeed.
\<close>

fun trail :: "string \<Rightarrow> nat option" where
  "trail [] = Some 0"
| "trail (c # cs) =
     (if is_space c
      then (case trail cs of
              Some k \<Rightarrow> Some (Suc k)
            | None \<Rightarrow> if c = NL then Some 0 else None)
      else None)"

definition skip_opt_sep :: "string \<Rightarrow> string" where
  "skip_opt_sep s = (case s of [] \<Rightarrow> [] | c # cs \<Rightarrow> if c = CHR ''-'' \<or> c = CHR ''_'' then cs else s)"

definition md_slide_match :: "string \<Rightarrow> nat option" where
  "md_slide_match s =
     (let k = length (takeWhile (\<lambda>c. c = CHR ''#'') s) in
      if k < 1 \<or> 6 < k then None
      else
        let r1 = dropWhile is_space (drop k s) in
        if map lower_char (take 5 r1) \<noteq> ''slide'' then None
        else
          let r4 = dropWhile is_space (skip_opt_sep (dropWhile is_space (drop 5 r1)));
              r5 = dropWhile is_digit r4
          in if takeWhile is_digit r4 = [] then None
             else (case trail r5 of
                     None \<Rightarrow> None
                   | Some w \<Rightarrow> Some (length s - length r5 + w)))"

lemma md_slide_match_pos: "md_slide_match s = Some n \<Longrightarrow> 0 < n"
proof -
  assume a: "md_slide_match s = Some n"
  define k where "k = length (takeWhile (\<lambda>c. c = CHR ''#'') s)"
  define r1 where "r1 = dropWhile is_space (drop k s)"
  define r4 where "r4 = dropWhile is_space (skip_opt_sep (dropWhile is_space (drop 5 r1)))"
  define r5 where "r5 = dropWhile is_digit r4"
  from a have k: "1 \<le> k" and n: "length s - length r5 \<le> n"
    unfolding md_slide_match_def Let_def k_def [symmetric] r1_def [symmetric]
      r4_def [symmetric] r5_def [symmetric]
    by (auto split: if_splits option.splits)
  have "length (skip_opt_sep t) \<le> length t" for t
    by (cases t) (simp_all add: skip_opt_sep_def)
  then have "length r4 \<le> length (dropWhile is_space (drop 5 r1))"
    unfolding r4_def by (meson length_dropWhile_le order_trans)
  also have "\<dots> \<le> length r1"
    using length_dropWhile_le [of is_space "drop 5 r1"] by simp
  also have "\<dots> \<le> length (drop k s)" unfolding r1_def by (rule length_dropWhile_le)
  finally have "length r4 \<le> length s - k" by simp
  moreover have "length r5 \<le> length r4" unfolding r5_def by (rule length_dropWhile_le)
  moreover have "k \<le> length s" unfolding k_def by (rule length_takeWhile_le)
  ultimately show ?thesis using k n by arith
qed

text \<open>
  \<open>_md_slide_pat.finditer(md)\<close>, read as the texts around the matches: the text before
  the first match, then for each match the text from its end to the start of the next
  match (or to the end of \<open>md\<close>), which is the slice \<open>md[start:end]\<close> of the code.
  \<open>bol\<close> says that the position is at the start of a line (\<open>^\<close> under \<open>re.M\<close>), \<open>acc\<close>
  holds the current text reversed.
\<close>

function slide_gaps :: "bool \<Rightarrow> string \<Rightarrow> string \<Rightarrow> string list" where
  "slide_gaps bol acc [] = [rev acc]"
| "slide_gaps bol acc (c # cs) =
     (case (if bol then md_slide_match (c # cs) else None) of
        Some n \<Rightarrow> rev acc # slide_gaps (last (take n (c # cs)) = NL) [] (drop n (c # cs))
      | None \<Rightarrow> slide_gaps (c = NL) (c # acc) cs)"
  by pat_completeness auto
termination
  by (relation "measure (\<lambda>(bol, acc, s). length s)")
     (auto split: if_splits dest!: md_slide_match_pos)

definition split_markdown_slides :: "string \<Rightarrow> string list" where
  "split_markdown_slides md0 =
     (let md = strip_nl md0 in
      if md = [] then []
      else if hr_search md
      then filter (\<lambda>p. p \<noteq> []) (map strip (hr_split [] md))
      else
        (case tl (slide_gaps True [] md) of
           [] \<Rightarrow> [strip md]
         | b # bs \<Rightarrow> filter (\<lambda>p. p \<noteq> []) (map strip (b # bs))))"


section \<open>The text that extraction produces\<close>

text \<open>
  Names for the parts of the markdown of a deck, used to state what the splitter finds
  in it: the items of a slide as a list (\<open>slide_items\<close>), the header line and the body
  lines of a slide without their line feeds (\<open>slide_header\<close>, \<open>slide_core\<close>), the lines
  and the text of a whole deck (\<open>deck_lines\<close>, \<open>deck_text\<close>), the texts between the
  slide headers (\<open>deck_gaps\<close>) and the pages (\<open>deck_pages\<close>). A \<open>plain_line\<close> is a
  line that is not a slide header; \<open>dash_nl\<close> says that a text has a dash right before
  a line feed, \<open>clean\<close> that it has none and does not end in a dash.
\<close>

fun slide_items :: "int \<Rightarrow> int \<Rightarrow> text_frame option list \<Rightarrow> ph_item list" where
  "slide_items s_idx sh_idx [] = []"
| "slide_items s_idx sh_idx (None # shs) = slide_items s_idx (sh_idx + 1) shs"
| "slide_items s_idx sh_idx (Some tf # shs) =
     (make_ph_name s_idx sh_idx, text_len (tf_text tf),
      (case tf of [] \<Rightarrow> [] | p # _ \<Rightarrow> paragraph_align_tag p))
     # slide_items s_idx (sh_idx + 1) shs"

definition slide_header :: "int \<Rightarrow> string" where
  "slide_header s_idx = ''## Slide '' @ str_int (s_idx + 1)"

definition slide_core :: "int \<Rightarrow> slide \<Rightarrow> string list" where
  "slide_core s_idx sl =
     (if slide_items s_idx 0 (shapes sl) = [] then [''(No text on this slide)'']
      else map item_line (slide_items s_idx 0 (shapes sl)))"

definition unlines :: "string list \<Rightarrow> string" where
  "unlines ls = concat (map (\<lambda>l. l @ [NL]) ls)"

fun deck_text :: "int \<Rightarrow> slide list \<Rightarrow> string" where
  "deck_text s_idx [] = []"
| "deck_text s_idx [sl] = slide_header s_idx @ NL # join_nl (slide_core s_idx sl)"
| "deck_text s_idx (sl # sls) =
     slide_header s_idx @ NL # unlines (slide_core s_idx sl) @ NL # deck_text (s_idx + 1) sls"

definition slide_md_lines :: "int \<Rightarrow> slide \<Rightarrow> string list" where
  "slide_md_lines s sl =
     slide_header s #
     (if slide_items s 0 (shapes sl) = [] then [''(No text on this slide)'' @ [NL]]
      else map item_line (slide_items s 0 (shapes sl)) @ [[]])"

fun deck_lines :: "int \<Rightarrow> slide list \<Rightarrow> string list" where
  "deck_lines s [] = []"
| "deck_lines s (sl # sls) = slide_md_lines s sl @ deck_lines (s + 1) sls"

definition plain_line :: "string \<Rightarrow> bool" where
  "plain_line l \<longleftrightarrow>
     l \<noteq> [] \<and> \<not> is_space (hd l) \<and> \<not> is_space (last l) \<and> NL \<notin> set l
     \<and> last l \<noteq> CHR ''-'' \<and> (\<forall>rest. md_slide_match (l @ rest) = None)"

definition good_item :: "ph_item \<Rightarrow> bool" where
  "good_item it \<longleftrightarrow> (\<exists>s j. fst it = make_ph_name s j) \<and> NL \<notin> set (snd (snd it))"

fun deck_gaps :: "int \<Rightarrow> slide list \<Rightarrow> string list" where
  "deck_gaps s [] = []"
| "deck_gaps s [sl] = [NL # join_nl (slide_core s sl)]"
| "deck_gaps s (sl # sls) = (NL # unlines (slide_core s sl) @ [NL]) # deck_gaps (s + 1) sls"

fun dash_nl :: "string \<Rightarrow> bool" where
  "dash_nl (a # b # r) = ((a = CHR ''-'' \<and> b = NL) \<or> dash_nl (b # r))"
| "dash_nl _ = False"

definition clean :: "string \<Rightarrow> bool" where
  "clean t \<longleftrightarrow> \<not> dash_nl t \<and> (t = [] \<or> last t \<noteq> CHR ''-'')"

fun deck_pages :: "int \<Rightarrow> slide list \<Rightarrow> string list" where
  "deck_pages s [] = []"
| "deck_pages s (sl # sls) = join_nl (slide_core s sl) # deck_pages (s + 1) sls"

section \<open>Pictures (extractor.py, ppt\_builder.py)\<close>

text \<open>\<open>s.endswith(suffix)\<close>\<close>

definition endswith :: "string \<Rightarrow> string \<Rightarrow> bool" where
  "endswith s suf = (length suf \<le> length s \<and> drop (length s - length suf) s = suf)"

text \<open>
  \<open>extract_pictures\<close>: for every slide, every relationship whose type ends with
  \<open>/image\<close>, with the payload of the part it targets. \<open>rel.target_part\<close> raises on
  an external relationship (a linked picture), which ends the whole extraction.
\<close>

fun slide_pictures ::
  "(nat \<Rightarrow> bytes) \<Rightarrow> int \<Rightarrow> (string \<times> rel) list \<Rightarrow> exn + (int \<times> string \<times> bytes) list" where
  "slide_pictures store s_idx [] = Inr []"
| "slide_pictures store s_idx ((r_id, rl) # rest) =
     (if endswith (reltype rl) ''/image''
      then (case target_part rl of
              Inl e \<Rightarrow> Inl e
            | Inr a \<Rightarrow>
                (case slide_pictures store s_idx rest of
                   Inl e \<Rightarrow> Inl e
                 | Inr ps \<Rightarrow> Inr ((s_idx, r_id, store a) # ps)))
      else slide_pictures store s_idx rest)"

fun pictures_from ::
  "(nat \<Rightarrow> bytes) \<Rightarrow> int \<Rightarrow> slide list \<Rightarrow> exn + (int \<times> string \<times> bytes) list" where
  "pictures_from store s_idx [] = Inr []"
| "pictures_from store s_idx (sl # sls) =
     (case slide_pictures store s_idx (rels sl) of
        Inl e \<Rightarrow> Inl e
      | Inr ps \<Rightarrow>
          (case pictures_from store (s_idx + 1) sls of
             Inl e \<Rightarrow> Inl e
           | Inr qs \<Rightarrow> Inr (ps @ qs)))"

definition extract_pictures :: "presentation \<Rightarrow> exn + (int \<times> string \<times> bytes) list" where
  "extract_pictures prs = pictures_from (blobs prs) 0 (slides prs)"

text \<open>
  \<open>prepare_image_candidates\<close>. The pictures are extracted before the loop, outside
  any \<open>try\<close>. The \<open>i\<close>-th call of \<open>unsplash_search\<close> (counted from 1, as the loop
  does) meets the network \<open>nets i\<close>; the call passes the keyword and \<open>per_page\<close> and
  leaves the other parameters at their defaults. \<open>except Exception\<close> catches every
  exception of the search. The progress callback is not modelled.
\<close>

record candidate_set =
  origin :: bytes
  candidates :: "bytes list"

type_synonym candidate_map = "(int \<times> string) \<rightharpoonup> candidate_set"

fun candidates_loop ::
  "(nat \<Rightarrow> net) \<Rightarrow> string \<Rightarrow> int \<Rightarrow> nat \<Rightarrow> (int \<times> string \<times> bytes) list \<Rightarrow> candidate_map
   \<Rightarrow> candidate_map" where
  "candidates_loop nets keyword per_page i [] ret = ret"
| "candidates_loop nets keyword per_page i ((s_idx, r_id, blob) # pics) ret =
     (let cand = (case unsplash_search (nets i) keyword per_page None
                         ''landscape'' ''small'' ''relevant'' of
                    Inl exc \<Rightarrow> []
                  | Inr found \<Rightarrow> found)
      in candidates_loop nets keyword per_page (i + 1) pics
           (ret((s_idx, r_id) \<mapsto> \<lparr>origin = blob, candidates = cand\<rparr>)))"

definition prepare_image_candidates ::
  "(nat \<Rightarrow> net) \<Rightarrow> presentation \<Rightarrow> string \<Rightarrow> int \<Rightarrow> exn + candidate_map" where
  "prepare_image_candidates nets prs keyword per_page =
     (case extract_pictures prs of
        Inl e \<Rightarrow> Inl e
      | Inr pics \<Rightarrow> Inr (candidates_loop nets keyword per_page 1 pics Map.empty))"


section \<open>Rendering (ppt\_builder.py)\<close>

text \<open>\<open>re.split(r"\n+", md)\<close>: the pieces between the runs of line feeds.\<close>

function nl_runs_split :: "string \<Rightarrow> string \<Rightarrow> string list" where
  "nl_runs_split acc [] = [rev acc]"
| "nl_runs_split acc (c # cs) =
     (if c = NL then rev acc # nl_runs_split [] (dropWhile (\<lambda>x. x = NL) cs)
      else nl_runs_split (c # acc) cs)"
  by pat_completeness auto
termination
  by (relation "measure (\<lambda>(acc, s). length s)")
     (auto simp: le_imp_less_Suc length_dropWhile_le)

text \<open>\<open>xs[i]\<close> for a Python integer \<open>i\<close>: a negative index counts from the end.\<close>

definition py_getitem :: "'a list \<Rightarrow> int \<Rightarrow> exn + 'a" where
  "py_getitem xs i =
     (if 0 \<le> i \<and> i < int (length xs) then Inr (xs ! nat i)
      else if i < 0 \<and> - int (length xs) \<le> i then Inr (xs ! nat (int (length xs) + i))
      else Inl IndexError)"

text \<open>
  The first loop of \<open>render_ppt\<close>: page \<open>idx\<close> (counted from 0 here) is written into
  the slide at that position, or into a slide appended by \<open>add_slide(blank_layout)\<close>,
  which is \<open>new_slide\<close>. An exception of \<open>_write_page_to_slide\<close> is not caught.
\<close>

fun write_pages :: "slide \<Rightarrow> nat \<Rightarrow> string list \<Rightarrow> slide list \<Rightarrow> exn + slide list" where
  "write_pages new_slide idx [] sls = Inr sls"
| "write_pages new_slide idx (md # pages) sls =
     (let lines = filter (\<lambda>l. strip l \<noteq> []) (nl_runs_split [] md);
          sls1 = (if idx < length sls then sls else sls @ [new_slide]);
          pos = (if idx < length sls then idx else length sls)
      in case write_page_to_slide (sls1 ! pos) lines of
           Inl e \<Rightarrow> Inl e
         | Inr sl' \<Rightarrow> write_pages new_slide (idx + 1) pages (sls1[pos := sl']))"

text \<open>
  \<open>_replace_picture\<close>: \<open>slide.part.rels[r_id].target.part.blob = new_blob\<close>. The
  caller's \<open>prs.slides[s_idx]\<close> is inside the same \<open>try\<close> and is taken in here. The
  lookup of \<open>r_id\<close> raises \<open>KeyError\<close> when the slide has no such relationship;
  otherwise the relationship is asked for its attribute \<open>target\<close>, which it does not
  have, and that raises \<open>AttributeError\<close> before anything is assigned.
\<close>

definition replace_picture :: "presentation \<Rightarrow> int \<Rightarrow> string \<Rightarrow> bytes \<Rightarrow> exn + presentation" where
  "replace_picture prs s_idx r_id new_blob =
     (case py_getitem (slides prs) s_idx of
        Inl e \<Rightarrow> Inl e
      | Inr sl \<Rightarrow>
          (case map_of (rels sl) r_id of
             None \<Rightarrow> Inl KeyError
           | Some rl \<Rightarrow> Inl AttributeError))"

text \<open>
  The second loop, over \<open>user_choices.items()\<close>: the dictionary is the list of its
  items in iteration order, a value is \<open>None\<close> or bytes, \<open>if blob\<close> holds for bytes
  that are not empty, and the \<open>try\<close> swallows every exception of the replacement.
\<close>

type_synonym choices = "((int \<times> string) \<times> bytes option) list"

fun replace_loop :: "choices \<Rightarrow> presentation \<Rightarrow> presentation" where
  "replace_loop [] prs = prs"
| "replace_loop (((s_idx, r_id), blob) # rest) prs =
     replace_loop rest
       (case blob of
          None \<Rightarrow> prs
        | Some b \<Rightarrow>
            if b = [] then prs
            else (case replace_picture prs s_idx r_id b of
                    Inl exc \<Rightarrow> prs
                  | Inr prs' \<Rightarrow> prs'))"

text \<open>
  \<open>render_ppt\<close> up to the saving of the file: the result is the deck that is saved
  (the topic only names the file).
\<close>

definition render_ppt :: "presentation \<Rightarrow> string \<Rightarrow> choices \<Rightarrow> exn + presentation" where
  "render_ppt prs markdown user_choices =
     (case py_index (slide_layouts prs) 1 of
        Inl e \<Rightarrow> Inl e
      | Inr blank_layout \<Rightarrow>
          (case write_pages blank_layout 0 (split_markdown_slides markdown) (slides prs) of
             Inl e \<Rightarrow> Inl e
           | Inr sls \<Rightarrow> Inr (replace_loop user_choices (prs\<lparr>slides := sls\<rparr>))))"


text \<open>
  The key of a picture in the candidate map; and, for the proofs about the pictures, the
  image relationships of a list of slides, each with the index of its slide, and what
  the extraction makes of one of them.
\<close>

definition pic_key :: "int \<times> string \<times> bytes \<Rightarrow> int \<times> string" where
  "pic_key p = (fst p, fst (snd p))"

definition is_image_rel :: "string \<times> rel \<Rightarrow> bool" where
  "is_image_rel x = endswith (reltype (snd x)) ''/image''"

fun image_rels_from :: "int \<Rightarrow> slide list \<Rightarrow> (int \<times> string \<times> rel) list" where
  "image_rels_from s [] = []"
| "image_rels_from s (sl # sls) =
     map (\<lambda>x. (s, fst x, snd x)) (filter is_image_rel (rels sl)) @ image_rels_from (s + 1) sls"

definition picture_of :: "(nat \<Rightarrow> bytes) \<Rightarrow> int \<times> string \<times> rel \<Rightarrow> int \<times> string \<times> bytes \<Rightarrow> bool" where
  "picture_of store t p =
     (case rtarget (snd (snd t)) of
        Part a \<Rightarrow> p = (fst t, fst (snd t), store a)
      | External ref \<Rightarrow> False)"


section \<open>Locking and deduplication (llm\_client.py)\<close>

text \<open>
  \<open>_len_pat = <!--\s*len:(\d+)\s*-->\<close>. \<open>len_match\<close> is a match starting at the first
  character: group 1 and the text after the match. The white space is followed by a
  letter or a dash and the digits by white space or a dash, so the greedy repetitions
  cannot give anything back. \<open>len_search\<close> is group 1 of the leftmost match
  (\<open>_len_pat.search\<close>), \<open>len_sub\<close> is \<open>_len_pat.sub("", s)\<close>.
\<close>

definition len_match :: "string \<Rightarrow> (string \<times> string) option" where
  "len_match s =
     Option.bind (expect ''<!--'' s) (\<lambda>r1.
     Option.bind (expect ''len:'' (dropWhile is_space r1)) (\<lambda>r2.
       if takeWhile is_digit r2 = [] then None
       else Option.bind (expect ''-->'' (dropWhile is_space (dropWhile is_digit r2))) (\<lambda>r3.
              Some (takeWhile is_digit r2, r3))))"

fun len_search :: "string \<Rightarrow> string option" where
  "len_search [] = None"
| "len_search (c # cs) =
     (case len_match (c # cs) of
        Some (ds, rest) \<Rightarrow> Some ds
      | None \<Rightarrow> len_search cs)"

lemma expect_length: "expect lit s = Some r \<Longrightarrow> length s = length lit + length r"
proof -
  assume "expect lit s = Some r"
  then have t: "take (length lit) s = lit" and r: "r = drop (length lit) s"
    by (auto simp: expect_def split: if_splits)
  from t have "length (take (length lit) s) = length lit" by simp
  then have "length lit \<le> length s" by simp
  then show ?thesis by (simp add: r)
qed

lemma len_match_shorter: "len_match s = Some (ds, rest) \<Longrightarrow> length rest < length s"
proof -
  assume a: "len_match s = Some (ds, rest)"
  then obtain r1 r2 where
    1: "expect ''<!--'' s = Some r1" and
    2: "expect ''len:'' (dropWhile is_space r1) = Some r2" and
    3: "expect ''-->'' (dropWhile is_space (dropWhile is_digit r2)) = Some rest"
    by (auto simp: len_match_def split: Option.bind_splits if_splits)
  have "length rest \<le> length (dropWhile is_space (dropWhile is_digit r2))"
    using expect_length [OF 3] by simp
  also have "\<dots> \<le> length r2"
    using length_dropWhile_le [of is_space "dropWhile is_digit r2"]
      length_dropWhile_le [of is_digit r2] by simp
  also have "\<dots> \<le> length (dropWhile is_space r1)" using expect_length [OF 2] by simp
  also have "\<dots> \<le> length r1" by (rule length_dropWhile_le)
  also have "\<dots> < length s" using expect_length [OF 1] by simp
  finally show ?thesis .
qed

function len_sub :: "string \<Rightarrow> string" where
  "len_sub [] = []"
| "len_sub (c # cs) =
     (case len_match (c # cs) of
        Some (ds, rest) \<Rightarrow> len_sub rest
      | None \<Rightarrow> c # len_sub cs)"
  by pat_completeness auto
termination
  by (relation "measure length") (auto dest: len_match_shorter)

text \<open>
  \<open>_lock_pat = <!--LOCK-->(.*?)<!--/LOCK-->\<close> with \<open>re.S\<close>: after the opening sentinel
  the lazy group ends at the first closing sentinel. \<open>lock_sub\<close> is
  \<open>_lock_pat.sub(lambda m: m.group(1), md)\<close>.
\<close>

definition LOCK_OPEN :: string where
  "LOCK_OPEN = ''<!--LOCK-->''"

definition LOCK_CLOSE :: string where
  "LOCK_CLOSE = ''<!--/LOCK-->''"

fun find_close :: "string \<Rightarrow> string \<Rightarrow> (string \<times> string) option" where
  "find_close acc [] = None"
| "find_close acc (c # cs) =
     (case expect LOCK_CLOSE (c # cs) of
        Some rest \<Rightarrow> Some (rev acc, rest)
      | None \<Rightarrow> find_close (c # acc) cs)"

definition lock_match :: "string \<Rightarrow> (string \<times> string) option" where
  "lock_match s = Option.bind (expect LOCK_OPEN s) (find_close [])"

lemma find_close_shorter: "find_close acc s = Some (body, rest) \<Longrightarrow> length rest < length s"
proof (induction s arbitrary: acc)
  case Nil
  then show ?case by simp
next
  case (Cons c cs)
  show ?case
  proof (cases "expect LOCK_CLOSE (c # cs)")
    case None
    with Cons.prems have "find_close (c # acc) cs = Some (body, rest)" by simp
    from Cons.IH [OF this] show ?thesis by simp
  next
    case (Some r)
    with Cons.prems have "rest = r" by simp
    with expect_length [OF Some] show ?thesis by (simp add: LOCK_CLOSE_def)
  qed
qed

lemma lock_match_shorter: "lock_match s = Some (body, rest) \<Longrightarrow> length rest < length s"
proof -
  assume "lock_match s = Some (body, rest)"
  then obtain r where 1: "expect LOCK_OPEN s = Some r" and 2: "find_close [] r = Some (body, rest)"
    by (auto simp: lock_match_def split: Option.bind_splits)
  from find_close_shorter [OF 2] expect_length [OF 1] show ?thesis by simp
qed

function lock_sub :: "string \<Rightarrow> string" where
  "lock_sub [] = []"
| "lock_sub (c # cs) =
     (case lock_match (c # cs) of
        Some (body, rest) \<Rightarrow> body @ lock_sub rest
      | None \<Rightarrow> c # lock_sub cs)"
  by pat_completeness auto
termination
  by (relation "measure length") (auto dest: lock_match_shorter)

text \<open>
  \<open>_split_lines_keep_eol\<close>, that is \<open>re.findall(r".*?(?:\n|$)", txt)\<close>: every line
  with its line feed, then the rest of the text when it is not empty, then the empty
  match at the end of the text.
\<close>

fun split_from :: "string \<Rightarrow> string \<Rightarrow> string list" where
  "split_from acc [] = (if acc = [] then [[]] else [rev acc, []])"
| "split_from acc (c # cs) =
     (if c = NL then rev (c # acc) # split_from [] cs else split_from (c # acc) cs)"

definition split_lines_keep_eol :: "string \<Rightarrow> string list" where
  "split_lines_keep_eol txt = split_from [] txt"

text \<open>\<open>m and m.group(1) == "0"\<close> for \<open>m = _len_pat.search(ln)\<close>\<close>

definition is_zero_len :: "string \<Rightarrow> bool" where
  "is_zero_len ln = (len_search ln = Some ''0'')"

text \<open>\<open>ln.rstrip("\n")\<close>\<close>

definition rstrip_nl :: "string \<Rightarrow> string" where
  "rstrip_nl s = rev (dropWhile (\<lambda>c. c = NL) (rev s))"

fun zero_lines_from :: "nat \<Rightarrow> string list \<Rightarrow> (nat \<times> string) list" where
  "zero_lines_from idx [] = []"
| "zero_lines_from idx (ln # lns) =
     (if is_zero_len ln then (idx, rstrip_nl ln) # zero_lines_from (idx + 1) lns
      else zero_lines_from (idx + 1) lns)"

definition find_zero_len_lines :: "string \<Rightarrow> (nat \<times> string) list" where
  "find_zero_len_lines md = zero_lines_from 0 (split_lines_keep_eol md)"

fun lock_lines :: "(nat \<times> string) list \<Rightarrow> string list \<Rightarrow> string list" where
  "lock_lines [] lines = lines"
| "lock_lines ((idx, origin_ln) # zero) lines =
     lock_lines zero (lines[idx := LOCK_OPEN @ origin_ln @ LOCK_CLOSE @ [NL]])"

definition lock_zero_len_lines :: "string \<Rightarrow> string \<times> (nat \<times> string) list" where
  "lock_zero_len_lines md =
     (let zero = find_zero_len_lines md;
          lines = split_lines_keep_eol md
      in (concat (lock_lines zero lines), zero))"

text \<open>
  The second step of \<open>_unlock_and_dedup\<close>, the loop with the set \<open>seen\<close>; the result
  is \<open>out_lines\<close>. \<open>dedup_key\<close> is \<open>_len_pat.sub("", ln).strip()\<close>.
\<close>

definition dedup_key :: "string \<Rightarrow> string" where
  "dedup_key ln = strip (len_sub ln)"

fun dedup_lines :: "string set \<Rightarrow> string list \<Rightarrow> string list" where
  "dedup_lines seen [] = []"
| "dedup_lines seen (ln # lns) =
     (if is_zero_len ln
      then (if dedup_key ln \<in> seen then dedup_lines seen lns
            else ln # dedup_lines (insert (dedup_key ln) seen) lns)
      else ln # dedup_lines seen lns)"

text \<open>The third step: both branches of the inner test remove the length comments.\<close>

definition strip_len_tags :: "string list \<Rightarrow> string list" where
  "strip_len_tags out_lines =
     map (\<lambda>ln. if len_search ln \<noteq> None then len_sub ln else ln) out_lines"

definition unlock_and_dedup :: "string \<Rightarrow> (nat \<times> string) list \<Rightarrow> bool \<Rightarrow> string" where
  "unlock_and_dedup md0 zero_lines strip_len_tag =
     (let md = lock_sub md0;
          out_lines = dedup_lines {} (split_lines_keep_eol md);
          out_lines2 = (if strip_len_tag then strip_len_tags out_lines else out_lines)
      in rstrip (concat out_lines2))"

text \<open>
  Line \<open>i\<close> of \<open>ls\<close> is removed by the loop started with the set \<open>seen\<close>: it has a
  zero length hint and its key is in \<open>seen\<close> or is the key of an earlier zero-hint line.
\<close>

definition earlier_same_key :: "string list \<Rightarrow> nat \<Rightarrow> bool" where
  "earlier_same_key ls i =
     (\<exists>j<i. is_zero_len (ls ! j) \<and> dedup_key (ls ! j) = dedup_key (ls ! i))"

definition removed_line :: "string set \<Rightarrow> string list \<Rightarrow> nat \<Rightarrow> bool" where
  "removed_line seen ls i =
     (is_zero_len (ls ! i) \<and> (dedup_key (ls ! i) \<in> seen \<or> earlier_same_key ls i))"


subsection \<open>Lines of a text, and the text between the two passes\<close>

text \<open>
  Notions used to state the properties of \<open>_lock_zero_len_lines\<close> and \<open>_unlock_and_dedup\<close>.
  \<open>all_space\<close>: the string consists of white space. \<open>linelike\<close>: the list has the shape of
  a result of \<open>_split_lines_keep_eol\<close>, that is non-empty lines that each end at their
  first line feed (the last of them may lack it), followed by one empty string.
\<close>

definition all_space :: "string \<Rightarrow> bool" where
  "all_space ws = (\<forall>c \<in> set ws. is_space c)"

fun linelike :: "string list \<Rightarrow> bool" where
  "linelike [] = False"
| "linelike [x] = (x = [])"
| "linelike (x # y # r) =
     (x \<noteq> [] \<and> NL \<notin> set (butlast x) \<and> ((y = [] \<and> r = []) \<or> last x = NL) \<and> linelike (y # r))"

text \<open>
  Steps 2 and the final \<open>rstrip\<close> of \<open>_unlock_and_dedup\<close> on a text, without the unlocking
  and without the removal of length comments.
\<close>

definition dedup_text :: "string \<Rightarrow> string" where
  "dedup_text t = rstrip (concat (dedup_lines {} (split_lines_keep_eol t)))"

text \<open>
  \<open>contains pat s\<close> is Python's \<open>pat in s\<close>. \<open>lockify\<close> is what the loop of
  \<open>_lock_zero_len_lines\<close> makes of one line, and \<open>restore\<close> is the line that unlocking
  gives back for it: a zero-hint line ends with exactly one line feed.
\<close>

fun contains :: "string \<Rightarrow> string \<Rightarrow> bool" where
  "contains pat [] = (pat = [])"
| "contains pat (c # cs) = (expect pat (c # cs) \<noteq> None \<or> contains pat cs)"

definition lockify :: "string \<Rightarrow> string" where
  "lockify l = (if is_zero_len l then LOCK_OPEN @ rstrip_nl l @ LOCK_CLOSE @ [NL] else l)"

definition restore :: "string \<Rightarrow> string" where
  "restore l = (if is_zero_len l then rstrip_nl l @ [NL] else l)"

text \<open>
  A text that comes back from a generation step is described by its lines as they read
  once the sentinels are gone, each with a mark that says whether the line is still
  wrapped in the sentinels. \<open>wrap\<close> is the line as it stands in the text: the sentinels
  enclose the line up to its line terminator. The text is \<open>generated\<close> when the lines are
  the lines of a text, none of them contains a sentinel, and every wrapped line has a zero
  length hint; the other lines are arbitrary. \<open>tagged M\<close> describes the locked text of
  \<open>M\<close> itself.
\<close>

definition wrap :: "bool \<times> string \<Rightarrow> string" where
  "wrap t =
     (if fst t
      then LOCK_OPEN @ rstrip_nl (snd t) @ LOCK_CLOSE @ drop (length (rstrip_nl (snd t))) (snd t)
      else snd t)"

definition generated :: "(bool \<times> string) list \<Rightarrow> bool" where
  "generated gs \<longleftrightarrow>
     linelike (map snd gs)
     \<and> (\<forall>t \<in> set gs. \<not> contains LOCK_OPEN (snd t) \<and> \<not> contains LOCK_CLOSE (snd t)
                       \<and> (fst t \<longrightarrow> is_zero_len (snd t)))"

definition tagged :: "string \<Rightarrow> (bool \<times> string) list" where
  "tagged M = map (\<lambda>l. (is_zero_len l, restore l)) (split_lines_keep_eol M)"



section \<open>Example values\<close>

text \<open>
  A network on which every search raises, and a deck of two slides that show the same
  picture (part 0), the second slide with a picture of its own (part 1).
\<close>

definition failing_net :: net where
  "failing_net = \<lparr>ensure_key = Some ''key'', search_get = (\<lambda>_ _ _ _ _. Inl RequestException),
                   image_get = (\<lambda>_. Inl RequestException), shuffle = (\<lambda>bs. bs)\<rparr>"

definition picture_deck :: presentation where
  "picture_deck =
     \<lparr>slides = [\<lparr>shapes = [], title = None,
                  rels = [(''rId1'', \<lparr>reltype = ''http://x/slideLayout'', rtarget = Part 7\<rparr>),
                          (''rId2'', \<lparr>reltype = ''http://x/image'', rtarget = Part 0\<rparr>)]\<rparr>,
                \<lparr>shapes = [], title = None,
                  rels = [(''rId2'', \<lparr>reltype = ''http://x/image'', rtarget = Part 0\<rparr>),
                          (''rId3'', \<lparr>reltype = ''http://x/image'', rtarget = Part 1\<rparr>)]\<rparr>],
      slide_layouts = [\<lparr>shapes = [], title = None, rels = []\<rparr>,
                       \<lparr>shapes = [Some [], Some []], title = Some 0, rels = []\<rparr>],
      blobs = (\<lambda>a. if a = 0 then ''OLD0'' else if a = 1 then ''OLD1'' else [])\<rparr>"

text \<open>
  A deck whose only slide shows a linked picture, a slide whose only text frame has no
  paragraph, and a slide with one empty body frame.
\<close>

definition linked_deck :: presentation where
  "linked_deck =
     \<lparr>slides = [\<lparr>shapes = [], title = None,
                  rels = [(''rId2'', \<lparr>reltype = ''http://x/image'',
                                       rtarget = External ''file:///photo.png''\<rparr>)]\<rparr>],
      slide_layouts = [],
      blobs = (\<lambda>a. [])\<rparr>"




text \<open>A choice map for \<open>picture_deck\<close>: new bytes for the picture of the first slide.\<close>

definition demo_choices :: choices where
  "demo_choices = [((0, ''rId2''), Some ''NEW''), ((1, ''rId3''), None)]"


text \<open>Two zero-hint lines with the same token and different keys.\<close>

definition same_token_md :: string where
  "same_token_md = ''### {{S1_P1}} <!--len:0-->'' @ [NL] @ ''- {{S1_P1}} <!--len:0-->''"


text \<open>
  A deck of three slides: a short centred title and a long body, then a slide without a
  text shape, then a slide whose only text frame is empty.
\<close>

definition text_deck :: presentation where
  "text_deck =
     \<lparr>slides =
        [\<lparr>shapes = [Some [empty_para\<lparr>para_text := ''Title 12'', para_alignment := Some CENTER\<rparr>],
                    None,
                    Some [empty_para\<lparr>para_text := ''A long body text, more than ten''\<rparr>, empty_para]],
          title = Some 0, rels = []\<rparr>,
         \<lparr>shapes = [None], title = None, rels = []\<rparr>,
         \<lparr>shapes = [Some []], title = None, rels = []\<rparr>],
      slide_layouts = [],
      blobs = (\<lambda>a. [])\<rparr>"

text \<open>
  Texts for the lock round trip: a text with two zero-hint lines of different keys; a text
  whose two zero-hint lines have the same key and different bytes; a zero-hint line that
  ends with a blank; a line that contains the closing sentinel; a text whose locked line
  gets, from the generation step, an unlocked line with the same key in front of it; and
  a text that a generation step made of the locked \<open>lock_md\<close>, with the body rewritten,
  one line added and the last line feed removed.
\<close>

definition lock_md :: string where
  "lock_md = ''### {{S1_P1}} <!--len:0-->'' @ [NL] @ ''- body <!--len:12-->'' @ [NL]
             @ ''### {{S1_P2}} <!--len:0-->''"

definition dup_key_md :: string where
  "dup_key_md = ''### {{S1_P1}} <!--len:0-->'' @ [NL] @ ''### {{S1_P1}}  <!-- len:0 -->'' @ [NL]
                @ ''- x <!--len:12-->''"

definition trailing_md :: string where
  "trailing_md = ''a <!--len:0--> ''"

definition sentinel_md :: string where
  "sentinel_md = ''a<!--/LOCK-->b <!--len:0-->''"

definition spaced_md :: string where
  "spaced_md = ''x  <!--len:0-->'' @ [NL] @ ''- body <!--len:12-->''"

definition answer_lines :: "(bool \<times> string) list" where
  "answer_lines = [(True, ''### {{S1_P1}} <!--len:0-->'' @ [NL]),
                   (False, ''- A body, rewritten'' @ [NL]),
                   (False, ''- one more line'' @ [NL]),
                   (True, ''### {{S1_P2}} <!--len:0-->''),
                   (False, [])]"

text \<open>
  Texts for the second pass: nested sentinels, a length comment inside a length comment, and
  a model answer with one locked line, one duplicate of it and trailing blank lines.
\<close>

definition nested_lock_md :: string where
  "nested_lock_md = ''<!--LOCK--><!--LOCK-->a<!--/LOCK--><!--/LOCK-->''"

definition nested_len_md :: string where
  "nested_len_md = ''x <!--len<!--len:5-->:0-->'' @ [NL] @ ''x <!--len:0-->''"

definition idem_md :: string where
  "idem_md = ''<!--LOCK-->### {{S1_P1}} <!--len:0--><!--/LOCK-->'' @ [NL]
             @ ''- text <!--len:12-->  '' @ [NL] @ ''### {{S1_P1}} <!--len:0-->'' @ [NL, NL]"

section \<open>Theorems\<close>

subsection \<open>Decimal rendering\<close>

lemma digit_cases:
  "d < 10 \<Longrightarrow> d = 0 \<or> d = 1 \<or> d = 2 \<or> d = 3 \<or> d = 4 \<or> d = 5 \<or> d = 6 \<or> d = 7 \<or> d = 8 \<or> d = (9::nat)"
  by arith

lemma digit_char_is_digit: "d < 10 \<Longrightarrow> is_digit (digit_char d)"
  using digit_cases [of d] by (auto simp: digit_char_def is_digit_def)

lemma digit_val_digit_char: "d < 10 \<Longrightarrow> digit_val (digit_char d) = d"
  using digit_cases [of d] by (auto simp: digit_char_def digit_val_def)

lemma digit_char_inj: "d < 10 \<Longrightarrow> e < 10 \<Longrightarrow> digit_char d = digit_char e \<Longrightarrow> d = e"
  using digit_val_digit_char by metis

lemma str_nat_digits: "\<forall>c \<in> set (str_nat n). is_digit c"
proof (induction n rule: str_nat.induct)
  case (1 n)
  show ?case
  proof (cases "n < 10")
    case True
    then show ?thesis by (simp add: str_nat.simps [of n] digit_char_is_digit)
  next
    case False
    with 1 show ?thesis by (simp add: str_nat.simps [of n] digit_char_is_digit)
  qed
qed

lemma str_nat_nonempty: "str_nat n \<noteq> []"
  by (simp add: str_nat.simps [of n])

lemma nat_of_digits_snoc: "nat_of_digits (ds @ [c]) = 10 * nat_of_digits ds + digit_val c"
  by (simp add: nat_of_digits_def)

lemma nat_of_digits_single: "nat_of_digits [c] = digit_val c"
  by (simp add: nat_of_digits_def)

lemma nat_of_digits_str_nat: "nat_of_digits (str_nat n) = n"
proof (induction n rule: str_nat.induct)
  case (1 n)
  show ?case
  proof (cases "n < 10")
    case True
    then show ?thesis
      by (simp add: str_nat.simps [of n] nat_of_digits_single digit_val_digit_char)
  next
    case False
    with 1 show ?thesis
      by (simp add: str_nat.simps [of n] nat_of_digits_snoc digit_val_digit_char)
  qed
qed

lemma int_of_digits_str_nat: "int_of_digits (str_nat n) = int n"
  by (simp add: int_of_digits_def nat_of_digits_str_nat)

lemma str_nat_inj: "str_nat m = str_nat n \<Longrightarrow> m = n"
proof -
  assume "str_nat m = str_nat n"
  then have "nat_of_digits (str_nat m) = nat_of_digits (str_nat n)" by simp
  then show ?thesis by (simp only: nat_of_digits_str_nat)
qed

lemma minus_not_digit: "\<not> is_digit CHR ''-''"
  by (simp add: is_digit_def)

lemma underscore_not_digit: "\<not> is_digit CHR ''_''"
  by (simp add: is_digit_def)

lemma str_nat_no_minus: "CHR ''-'' \<notin> set (str_nat n)"
  using str_nat_digits [of n] minus_not_digit by blast

lemma str_nat_hd: "hd (str_nat n) \<noteq> CHR ''-''"
proof (cases "str_nat n")
  case Nil
  then show ?thesis using str_nat_nonempty [of n] by simp
next
  case (Cons c cs)
  then show ?thesis using str_nat_no_minus [of n] by auto
qed

lemma str_int_inj: "str_int m = str_int n \<Longrightarrow> m = n"
proof -
  assume eq: "str_int m = str_int n"
  show ?thesis
  proof (cases "m < 0")
    case mneg: True
    show ?thesis
    proof (cases "n < 0")
      case True
      with mneg eq have "nat (- m) = nat (- n)" by (simp add: str_int_def str_nat_inj)
      with mneg True show ?thesis by simp
    next
      case False
      with mneg eq have "str_nat (nat n) = CHR ''-'' # str_nat (nat (- m))"
        by (simp add: str_int_def)
      then have "hd (str_nat (nat n)) = CHR ''-''" by simp
      then show ?thesis using str_nat_hd by simp
    qed
  next
    case mpos: False
    show ?thesis
    proof (cases "n < 0")
      case True
      with mpos eq have "str_nat (nat m) = CHR ''-'' # str_nat (nat (- n))"
        by (simp add: str_int_def)
      then have "hd (str_nat (nat m)) = CHR ''-''" by simp
      then show ?thesis using str_nat_hd by simp
    next
      case False
      with mpos eq have "nat m = nat n" by (simp add: str_int_def str_nat_inj)
      with mpos False show ?thesis by simp
    qed
  qed
qed

lemma str_int_no_underscore: "CHR ''_'' \<notin> set (str_int n)"
proof -
  have "CHR ''_'' \<notin> set (str_nat k)" for k
    using str_nat_digits [of k] underscore_not_digit by blast
  then show ?thesis by (simp add: str_int_def)
qed

lemma str_int_nonneg: "0 \<le> n \<Longrightarrow> str_int n = str_nat (nat n)"
  by (simp add: str_int_def)


subsection \<open>Placeholder tokens\<close>

lemma expect_append: "expect lit (lit @ r) = Some r"
  by (simp add: expect_def)

lemma takeWhile_digits: "\<forall>c \<in> set ds. is_digit c \<Longrightarrow> \<not> is_digit x \<Longrightarrow> takeWhile is_digit (ds @ x # r) = ds"
  by (induction ds) auto

lemma dropWhile_digits: "\<forall>c \<in> set ds. is_digit c \<Longrightarrow> \<not> is_digit x \<Longrightarrow> dropWhile is_digit (ds @ x # r) = x # r"
  by (induction ds) auto

lemma brace_not_digit: "\<not> is_digit CHR ''}''"
  by (simp add: is_digit_def)

lemma parseToken_digits:
  assumes "A \<noteq> []" "\<forall>c \<in> set A. is_digit c" "B \<noteq> []" "\<forall>c \<in> set B. is_digit c"
  shows "parseToken (''{{S'' @ A @ ''_P'' @ B @ ''}}'') = Some (int_of_digits A - 1, int_of_digits B - 1)"
proof -
  have e1: "expect ''{{S'' (''{{S'' @ A @ ''_P'' @ B @ ''}}'') = Some (A @ ''_P'' @ B @ ''}}'')"
    by (rule expect_append)
  have t1: "takeWhile is_digit (A @ ''_P'' @ B @ ''}}'') = A"
    using takeWhile_digits [OF assms(2) underscore_not_digit] by simp
  have d1: "dropWhile is_digit (A @ ''_P'' @ B @ ''}}'') = ''_P'' @ B @ ''}}''"
    using dropWhile_digits [OF assms(2) underscore_not_digit] by simp
  have e2: "expect ''_P'' (''_P'' @ B @ ''}}'') = Some (B @ ''}}'')"
    by (rule expect_append)
  have t2: "takeWhile is_digit (B @ ''}}'') = B"
    using takeWhile_digits [OF assms(4) brace_not_digit] by simp
  have d2: "dropWhile is_digit (B @ ''}}'') = ''}}''"
    using dropWhile_digits [OF assms(4) brace_not_digit] by simp
  show ?thesis
    unfolding parseToken_def e1 by (simp add: Let_def t1 d1 e2 t2 d2 assms(1) assms(3) del: append.simps)
qed

lemma parseToken_make_ph_name:
  assumes "0 \<le> s" "0 \<le> i"
  shows "parseToken (make_ph_name s i) = Some (s, i)"
proof -
  have a: "str_int (s + 1) = str_nat (nat (s + 1))" and b: "str_int (i + 1) = str_nat (nat (i + 1))"
    using assms by (simp_all add: str_int_def)
  have "parseToken (''{{S'' @ str_nat (nat (s + 1)) @ ''_P'' @ str_nat (nat (i + 1)) @ ''}}'')
        = Some (int_of_digits (str_nat (nat (s + 1))) - 1, int_of_digits (str_nat (nat (i + 1))) - 1)"
    by (rule parseToken_digits) (simp_all add: str_nat_nonempty str_nat_digits)
  then show ?thesis using assms by (simp add: make_ph_name_def a b int_of_digits_str_nat)
qed

lemma takeWhile_until: "x \<notin> set xs \<Longrightarrow> takeWhile (\<lambda>c. c \<noteq> x) (xs @ x # r) = xs"
  by (induction xs) auto

lemma make_ph_name_inj:
  assumes "make_ph_name s i = make_ph_name s' i'"
  shows "s = s' \<and> i = i'"
proof -
  from assms have eq: "str_int (s + 1) @ CHR ''_'' # (CHR ''P'' # str_int (i + 1) @ ''}}'')
                     = str_int (s' + 1) @ CHR ''_'' # (CHR ''P'' # str_int (i' + 1) @ ''}}'')"
    by (simp add: make_ph_name_def)
  have "takeWhile (\<lambda>c. c \<noteq> CHR ''_'') (str_int (s + 1) @ CHR ''_'' # (CHR ''P'' # str_int (i + 1) @ ''}}''))
        = str_int (s + 1)"
    by (rule takeWhile_until) (rule str_int_no_underscore)
  moreover have "takeWhile (\<lambda>c. c \<noteq> CHR ''_'') (str_int (s' + 1) @ CHR ''_'' # (CHR ''P'' # str_int (i' + 1) @ ''}}''))
        = str_int (s' + 1)"
    by (rule takeWhile_until) (rule str_int_no_underscore)
  ultimately have s: "str_int (s + 1) = str_int (s' + 1)" using eq by simp
  with eq have "str_int (i + 1) = str_int (i' + 1)" by simp
  with s show ?thesis using str_int_inj by fastforce
qed

text \<open>
  C1. For non-negative slide and shape indices, parsing the token that \<open>_make_ph_name\<close>
  builds gives back the pair of indices; and \<open>_make_ph_name\<close> is injective (on all
  integers), so two different (slide, shape) positions never share a token.
\<close>

theorem make_ph_name_roundtrip:
  assumes "0 \<le> s" "0 \<le> i"
  shows "parseToken (make_ph_name s i) = Some (s, i)
         \<and> (make_ph_name s' i' = make_ph_name s i) = (s' = s \<and> i' = i)"
  using parseToken_make_ph_name [OF assms] make_ph_name_inj by blast

theorem make_ph_name_roundtrip_witness:
  "make_ph_name 0 1 = ''{{S1_P2}}'' \<and> parseToken ''{{S1_P2}}'' = Some (0, 1)
   \<and> make_ph_name 11 0 \<noteq> make_ph_name 0 1"
proof -
  have m: "make_ph_name 0 1 = ''{{S1_P2}}''" by code_simp
  have "parseToken (make_ph_name 0 1) = Some (0, 1)
         \<and> (make_ph_name 11 0 = make_ph_name 0 1) = ((11::int) = 0 \<and> (0::int) = 1)"
    by (rule make_ph_name_roundtrip) simp_all
  with m show ?thesis by simp
qed

subsection \<open>Extraction: classification by length\<close>

lemma short_block_eq:
  "short_block items j block =
     (j + length (takeWhile is_short (drop j items)),
      block @ map short_seg (takeWhile is_short (drop j items)))"
proof (induction items j block rule: short_block.induct)
  case (1 items j block)
  show ?case
  proof (cases "j < length items \<and> fst (snd (items ! j)) \<le> SHORT_LIMIT")
    case True
    then have d: "drop j items = items ! j # drop (j + 1) items"
      by (simp add: Cons_nth_drop_Suc)
    from True have s: "is_short (items ! j)" by (simp add: is_short_def)
    have "short_block items j block = short_block items (j + 1) (block @ [short_seg (items ! j)])"
      using True by (subst short_block.simps) simp
    also have "\<dots> = (j + 1 + length (takeWhile is_short (drop (j + 1) items)),
                     (block @ [short_seg (items ! j)]) @ map short_seg (takeWhile is_short (drop (j + 1) items)))"
      using 1 True by simp
    finally show ?thesis by (simp add: d s)
  next
    case False
    then have "takeWhile is_short (drop j items) = []"
    proof (cases "j < length items")
      case True
      with False have "\<not> is_short (items ! j)" by (simp add: is_short_def)
      moreover from True have "drop j items = items ! j # drop (j + 1) items"
        by (simp add: Cons_nth_drop_Suc)
      ultimately show ?thesis by simp
    next
      case False
      then show ?thesis by simp
    qed
    moreover have "short_block items j block = (j, block)"
      using False by (subst short_block.simps) auto
    ultimately show ?thesis by simp
  qed
qed

lemma item_line_short: "is_short it \<Longrightarrow> item_line it = ''### '' @ short_seg it"
  by (cases it) (simp add: is_short_def item_line_def short_seg_def SHORT_LIMIT_def)

lemma item_line_long: "\<not> is_short it \<Longrightarrow> item_line it = long_line it"
  by (cases it) (simp add: is_short_def item_line_def long_line_def SHORT_LIMIT_def)

lemma map_item_line_short:
  "map item_line (takeWhile is_short xs) = map (\<lambda>seg. ''### '' @ seg) (map short_seg (takeWhile is_short xs))"
proof -
  have "\<forall>x \<in> set (takeWhile is_short xs). is_short x" by (auto dest: set_takeWhileD)
  then show ?thesis by (simp add: item_line_short)
qed

lemma emit_items_drop: "emit_items items i md_lines = md_lines @ map item_line (drop i items)"
proof (induction items i md_lines rule: emit_items.induct)
  case (1 items i md_lines)
  show ?case
  proof (cases "i < length items")
    case False
    then show ?thesis by (subst emit_items.simps) simp
  next
    case inb: True
    then have d: "drop i items = items ! i # drop (i + 1) items"
      by (simp add: Cons_nth_drop_Suc)
    show ?thesis
    proof (cases "fst (snd (items ! i)) \<le> SHORT_LIMIT")
      case True
      let ?tw = "takeWhile is_short (drop i items)"
      have sb: "short_block items i [] = (i + length ?tw, map short_seg ?tw)"
        by (simp add: short_block_eq)
      have "emit_items items i md_lines =
            emit_items items (i + length ?tw) (md_lines @ map (\<lambda>seg. ''### '' @ seg) (map short_seg ?tw))"
        using inb True by (subst emit_items.simps) (simp only: sb fst_conv snd_conv if_True)
      also have "\<dots> = (md_lines @ map (\<lambda>seg. ''### '' @ seg) (map short_seg ?tw))
                       @ map item_line (drop (i + length ?tw) items)"
        using 1(1) [OF inb True] unfolding sb fst_conv snd_conv .
      also have "\<dots> = md_lines @ map item_line (?tw @ drop (length ?tw) (drop i items))"
        by (simp add: map_item_line_short add.commute)
      also have "drop (length ?tw) (drop i items) = dropWhile is_short (drop i items)"
        by (simp add: dropWhile_eq_drop)
      finally show ?thesis by simp
    next
      case False
      then have ns: "\<not> is_short (items ! i)" by (simp add: is_short_def)
      have "emit_items items i md_lines = emit_items items (i + 1) (md_lines @ [long_line (items ! i)])"
        using inb False by (subst emit_items.simps) simp
      also have "\<dots> = (md_lines @ [long_line (items ! i)]) @ map item_line (drop (i + 1) items)"
        using 1(2) [OF inb False] .
      finally show ?thesis by (simp add: d item_line_long [OF ns])
    qed
  qed
qed

lemma collect_items_lens:
  "map (\<lambda>it. fst (snd it)) (fst (collect_items s_idx sh_idx shs (items, ph_map))) =
   map (\<lambda>it. fst (snd it)) items @ map (\<lambda>tf. text_len (tf_text tf)) (List.map_filter id shs)"
proof (induction shs arbitrary: sh_idx items ph_map)
  case Nil
  then show ?case by (simp add: List.map_filter_simps)
next
  case (Cons sh shs)
  show ?case
  proof (cases sh)
    case None
    then show ?thesis using Cons by (simp add: List.map_filter_simps)
  next
    case (Some tf)
    then show ?thesis using Cons by (simp add: List.map_filter_simps Let_def)
  qed
qed

subsection \<open>Extraction and splitting: one page per slide\<close>

lemma collect_items_fst:
  "fst (collect_items s j shs (items, pm)) = items @ slide_items s j shs"
proof (induction shs arbitrary: j items pm)
  case Nil
  then show ?case by simp
next
  case (Cons sh shs)
  then show ?case by (cases sh) (simp_all add: Let_def)
qed

lemma join_nl_Cons: "ys \<noteq> [] \<Longrightarrow> join_nl (x # ys) = x @ NL # join_nl ys"
  by (cases ys) simp_all

lemma join_nl_append:
  "xs \<noteq> [] \<Longrightarrow> ys \<noteq> [] \<Longrightarrow> join_nl (xs @ ys) = join_nl xs @ NL # join_nl ys"
proof (induction xs rule: join_nl.induct)
  case 1
  then show ?case by simp
next
  case (2 x)
  then show ?case by (simp add: join_nl_Cons)
next
  case (3 x y ys')
  then show ?case by simp
qed

lemma join_nl_unlines: "join_nl (xs @ [[]]) = unlines xs"
proof (induction xs)
  case Nil
  then show ?case by (simp add: unlines_def)
next
  case (Cons x xs)
  have "join_nl (x # (xs @ [[]])) = x @ NL # join_nl (xs @ [[]])"
    by (rule join_nl_Cons) simp
  then show ?case using Cons by (simp add: unlines_def)
qed

lemma extract_slide_fst:
  "fst (extract_slide s sl (md, pm)) = md @ slide_md_lines s sl"
proof -
  obtain items pm' where c: "collect_items s 0 (shapes sl) ([], pm) = (items, pm')"
    by (cases "collect_items s 0 (shapes sl) ([], pm)")
  have i: "items = slide_items s 0 (shapes sl)"
    using collect_items_fst [of s 0 "shapes sl" "[]" pm] c by simp
  show ?thesis
    unfolding extract_slide_def
    by (simp add: Let_def c i slide_md_lines_def slide_header_def emit_items_drop)
qed

lemma extract_slides_fst:
  "fst (extract_slides s sls (md, pm)) = md @ deck_lines s sls"
proof (induction sls arbitrary: s md pm)
  case Nil
  then show ?case by simp
next
  case (Cons sl sls)
  obtain md' pm' where e: "extract_slide s sl (md, pm) = (md', pm')"
    by (cases "extract_slide s sl (md, pm)")
  have "md' = md @ slide_md_lines s sl"
    using extract_slide_fst [of s sl md pm] e by simp
  then show ?case using Cons.IH [of "s + 1" md' pm'] by (simp add: e)
qed

lemma pptx_to_markdown_fst: "fst (pptx_to_markdown prs) = join_nl (deck_lines 0 (slides prs))"
proof -
  obtain md pm where e: "extract_slides 0 (slides prs) ([], Map.empty) = (md, pm)"
    by (cases "extract_slides 0 (slides prs) ([], Map.empty)")
  have "md = deck_lines 0 (slides prs)"
    using extract_slides_fst [of 0 "slides prs" "[]" Map.empty] e by simp
  then show ?thesis by (simp add: pptx_to_markdown_def e)
qed

lemma slide_core_nonempty: "slide_core s sl \<noteq> []"
  by (simp add: slide_core_def)

lemma unlines_snoc: "unlines (xs @ [x]) = unlines xs @ x @ [NL]"
  by (simp add: unlines_def)

lemma join_nl_snoc_unlines: "join_nl (xs @ [x]) = unlines xs @ x"
proof (induction xs)
  case Nil
  then show ?case by (simp add: unlines_def)
next
  case (Cons y ys)
  have "join_nl (y # (ys @ [x])) = y @ NL # join_nl (ys @ [x])"
    by (rule join_nl_Cons) simp
  then show ?case using Cons by (simp add: unlines_def)
qed

lemma join_nl_slide_md_lines:
  "join_nl (slide_md_lines s sl) = slide_header s @ NL # unlines (slide_core s sl)"
proof (cases "slide_items s 0 (shapes sl) = []")
  case True
  then show ?thesis by (simp add: slide_md_lines_def slide_core_def unlines_def)
next
  case False
  have "join_nl (slide_header s # (map item_line (slide_items s 0 (shapes sl)) @ [[]]))
        = slide_header s @ NL # join_nl (map item_line (slide_items s 0 (shapes sl)) @ [[]])"
    by (rule join_nl_Cons) simp
  then show ?thesis using False by (simp add: slide_md_lines_def slide_core_def join_nl_unlines)
qed

lemma slide_md_lines_nonempty: "slide_md_lines s sl \<noteq> []"
  by (simp add: slide_md_lines_def)

lemma unlines_join_nl: "xs \<noteq> [] \<Longrightarrow> unlines xs = join_nl xs @ [NL]"
  using join_nl_snoc_unlines [of "butlast xs" "last xs"] unlines_snoc [of "butlast xs" "last xs"]
  by simp

lemma join_nl_deck_lines:
  "sls \<noteq> [] \<Longrightarrow> join_nl (deck_lines s sls) = deck_text s sls @ [NL]"
proof (induction s sls rule: deck_text.induct)
  case (1 s)
  then show ?case by simp
next
  case (2 s sl)
  show ?case
    by (simp add: join_nl_slide_md_lines unlines_join_nl [OF slide_core_nonempty])
next
  case (3 s sl sl' sls)
  have ne: "deck_lines (s + 1) (sl' # sls) \<noteq> []" by (simp add: slide_md_lines_nonempty)
  have "join_nl (deck_lines s (sl # sl' # sls))
        = join_nl (slide_md_lines s sl) @ NL # join_nl (deck_lines (s + 1) (sl' # sls))"
    using join_nl_append [OF slide_md_lines_nonempty ne] by simp
  then show ?case using 3 by (simp add: join_nl_slide_md_lines)
qed

lemma md_slide_match_no_hash: "s = [] \<or> hd s \<noteq> CHR ''#'' \<Longrightarrow> md_slide_match s = None"
  by (cases s) (auto simp: md_slide_match_def)

lemma lower_brace: "lower_char CHR ''{'' = CHR ''{''"
  by code_simp

lemma md_slide_match_h3_brace: "md_slide_match (''### {'' @ rest) = None"
  by (simp add: md_slide_match_def is_space_def lower_brace)

lemma digit_not_space: "is_digit c \<Longrightarrow> \<not> is_space c"
  by (auto simp: is_digit_def is_space_def)

lemma NL_not_digit: "\<not> is_digit NL"
  by (simp add: is_digit_def)

lemma NL_space: "is_space NL"
  by (simp add: is_space_def)

lemma str_nat_hd_digit: "is_digit (hd (str_nat n))"
  using str_nat_digits [of n] str_nat_nonempty [of n] by (cases "str_nat n") auto

lemma dropWhile_space_str_nat: "dropWhile is_space (str_nat n @ r) = str_nat n @ r"
proof (cases "str_nat n")
  case Nil
  then show ?thesis using str_nat_nonempty by simp
next
  case (Cons d ds)
  then have "is_digit d" using str_nat_hd_digit [of n] by simp
  then show ?thesis using Cons by (simp add: digit_not_space)
qed

lemma skip_opt_sep_str_nat: "skip_opt_sep (str_nat n @ r) = str_nat n @ r"
proof (cases "str_nat n")
  case Nil
  then show ?thesis using str_nat_nonempty by simp
next
  case (Cons d ds)
  then have "is_digit d" using str_nat_hd_digit [of n] by simp
  then have "d \<noteq> CHR ''-''" "d \<noteq> CHR ''_''"
    using minus_not_digit underscore_not_digit by auto
  then show ?thesis using Cons by (simp add: skip_opt_sep_def)
qed

lemma lower_Slide: "map lower_char ''Slide'' = ''slide''"
  by code_simp

lemma trail_NL_nonspace: "\<not> is_space c \<Longrightarrow> trail (NL # c # rest) = Some 0"
  by (simp add: NL_space)

lemma md_slide_match_header:
  assumes "\<not> is_space c"
  shows "md_slide_match (''## Slide '' @ str_nat n @ NL # c # rest) = Some (9 + length (str_nat n))"
proof -
  let ?S = "''## Slide '' @ str_nat n @ NL # c # rest"
  have k: "length (takeWhile (\<lambda>c. c = CHR ''#'') ?S) = 2" by simp
  have r1: "dropWhile is_space (drop 2 ?S) = ''Slide '' @ str_nat n @ NL # c # rest"
    by (simp add: is_space_def)
  have t5: "map lower_char (take 5 (''Slide '' @ str_nat n @ NL # c # rest)) = ''slide''"
    using lower_Slide by simp
  have r4: "dropWhile is_space (skip_opt_sep (dropWhile is_space (drop 5 (''Slide '' @ str_nat n @ NL # c # rest))))
            = str_nat n @ NL # c # rest"
  proof -
    have "drop 5 (''Slide '' @ str_nat n @ NL # c # rest) = CHR '' '' # str_nat n @ NL # c # rest" by simp
    moreover have "dropWhile is_space (CHR '' '' # str_nat n @ NL # c # rest) = str_nat n @ NL # c # rest"
      using dropWhile_space_str_nat [of n "NL # c # rest"] by (simp add: is_space_def)
    ultimately show ?thesis by (simp only: skip_opt_sep_str_nat dropWhile_space_str_nat)
  qed
  have tw: "takeWhile is_digit (str_nat n @ NL # c # rest) = str_nat n"
    by (rule takeWhile_digits) (simp_all add: str_nat_digits NL_not_digit)
  have dw: "dropWhile is_digit (str_nat n @ NL # c # rest) = NL # c # rest"
    by (rule dropWhile_digits) (simp_all add: str_nat_digits NL_not_digit)
  have tr: "trail (NL # c # rest) = Some 0" using assms by (rule trail_NL_nonspace)
  have len: "length ?S - length (NL # c # rest) + 0 = 9 + length (str_nat n)" by simp
  show ?thesis
    unfolding md_slide_match_def Let_def k r1 t5 r4 tw dw tr
    using len str_nat_nonempty [of n] by simp
qed

lemma slide_gaps_line:
  assumes "NL \<notin> set l" "bol \<longrightarrow> md_slide_match (l @ NL # rest) = None"
  shows "slide_gaps bol acc (l @ NL # rest) = slide_gaps True (NL # rev l @ acc) rest"
  using assms
proof (induction l arbitrary: bol acc)
  case Nil
  then show ?case by simp
next
  case (Cons c l)
  from Cons.prems(1) have cn: "(c = NL) = False" and ln: "NL \<notin> set l" by auto
  have "slide_gaps bol acc ((c # l) @ NL # rest) = slide_gaps False (c # acc) (l @ NL # rest)"
    using Cons.prems(2) cn by simp
  also have "\<dots> = slide_gaps True (NL # rev l @ c # acc) rest"
    using Cons.IH [of False "c # acc"] ln by simp
  finally show ?case by simp
qed

lemma slide_gaps_last_line:
  assumes "NL \<notin> set l" "bol \<longrightarrow> md_slide_match l = None"
  shows "slide_gaps bol acc l = [rev acc @ l]"
  using assms
proof (induction l arbitrary: bol acc)
  case Nil
  then show ?case by simp
next
  case (Cons c l)
  from Cons.prems(1) have cn: "(c = NL) = False" and ln: "NL \<notin> set l" by auto
  have "slide_gaps bol acc (c # l) = slide_gaps False (c # acc) l"
    using Cons.prems(2) cn by simp
  also have "\<dots> = [rev (c # acc) @ l]"
    using Cons.IH [of False "c # acc"] ln by simp
  finally show ?case by simp
qed

lemma slide_gaps_plain_lines:
  assumes "\<forall>l \<in> set ls. plain_line l"
  shows "slide_gaps True acc (unlines ls @ rest) = slide_gaps True (rev (unlines ls) @ acc) rest"
  using assms
proof (induction ls arbitrary: acc)
  case Nil
  then show ?case by (simp add: unlines_def)
next
  case (Cons l ls)
  then have p: "plain_line l" by simp
  have "slide_gaps True acc (unlines (l # ls) @ rest) = slide_gaps True acc (l @ NL # unlines ls @ rest)"
    by (simp add: unlines_def)
  also have "\<dots> = slide_gaps True (NL # rev l @ acc) (unlines ls @ rest)"
    using p by (intro slide_gaps_line) (simp_all add: plain_line_def)
  also have "\<dots> = slide_gaps True (rev (unlines ls) @ NL # rev l @ acc) rest"
    using Cons by simp
  finally show ?case by (simp add: unlines_def)
qed

lemma plain_line_no_text: "plain_line ''(No text on this slide)''"
  by (simp add: plain_line_def is_space_def md_slide_match_no_hash)

lemma str_nat_no_NL: "NL \<notin> set (str_nat n)"
  using str_nat_digits [of n] NL_not_digit by blast

lemma str_int_no_NL: "NL \<notin> set (str_int n)"
  by (simp add: str_int_def str_nat_no_NL)

lemma make_ph_name_no_NL: "NL \<notin> set (make_ph_name s j)"
  by (simp add: make_ph_name_def str_int_no_NL)

lemma paragraph_align_tag_no_NL: "NL \<notin> set (paragraph_align_tag p)"
  by (simp add: paragraph_align_tag_def)

lemma slide_items_good: "\<forall>it \<in> set (slide_items s j shs). good_item it"
proof (induction shs arbitrary: j)
  case Nil
  then show ?case by simp
next
  case (Cons sh shs)
  show ?case
  proof (cases sh)
    case None
    then show ?thesis using Cons by simp
  next
    case (Some tf)
    have "good_item (make_ph_name s j, text_len (tf_text tf),
                     (case tf of [] \<Rightarrow> [] | p # _ \<Rightarrow> paragraph_align_tag p))"
      unfolding good_item_def by (cases tf) (auto simp: paragraph_align_tag_no_NL)
    then show ?thesis using Cons Some by simp
  qed
qed

lemma plain_line_item:
  assumes "good_item it"
  shows "plain_line (item_line it)"
proof -
  obtain ph ln tag where it: "it = (ph, ln, tag)" by (cases it)
  from assms obtain s j where ph: "ph = make_ph_name s j" and tag: "NL \<notin> set tag"
    by (auto simp: good_item_def it)
  define body where "body = str_int (s + 1) @ ''_P'' @ str_int (j + 1) @ ''}}''
      @ (if tag = [] then [] else '' '' @ tag) @ '' <!--len:'' @ str_nat ln"
  have nl: "NL \<notin> set body"
    using tag by (simp add: body_def str_int_no_NL str_nat_no_NL)
  show ?thesis
  proof (cases "ln \<le> 10")
    case True
    then have e: "item_line it = ''### {'' @ (''{S'' @ body @ ''-->'')"
      by (simp add: item_line_def it ph make_ph_name_def body_def)
    have m: "md_slide_match (item_line it @ rest) = None" for rest
      unfolding e using md_slide_match_h3_brace [of "(''{S'' @ body @ ''-->'') @ rest"] by simp
    show ?thesis
      unfolding plain_line_def using m nl by (simp add: e is_space_def)
  next
    case False
    then have e: "item_line it = ''- {{S'' @ body @ ''-->''"
      by (simp add: item_line_def it ph make_ph_name_def body_def)
    have m: "md_slide_match (item_line it @ rest) = None" for rest
      by (rule md_slide_match_no_hash) (simp add: e)
    show ?thesis
      unfolding plain_line_def using m nl by (simp add: e is_space_def)
  qed
qed

lemma slide_core_plain: "\<forall>l \<in> set (slide_core s sl). plain_line l"
  using slide_items_good [of s 0 "shapes sl"]
  by (auto simp: slide_core_def plain_line_no_text plain_line_item)

lemma slide_header_nonneg: "0 \<le> s \<Longrightarrow> slide_header s = ''## Slide '' @ str_nat (nat (s + 1))"
  by (simp add: slide_header_def str_int_def)

lemma str_nat_last_not_NL: "last (str_nat n) \<noteq> NL"
  using str_nat_no_NL [of n] str_nat_nonempty [of n] last_in_set by metis

lemma slide_gaps_header:
  assumes "0 \<le> s" "\<not> is_space c"
  shows "slide_gaps True acc (slide_header s @ NL # c # rest) = rev acc # slide_gaps True [NL] (c # rest)"
proof -
  let ?n = "nat (s + 1)"
  let ?H = "''## Slide '' @ str_nat ?n"
  have h: "slide_header s = ?H" using assms(1) by (rule slide_header_nonneg)
  have m: "md_slide_match (?H @ NL # c # rest) = Some (length ?H)"
    using md_slide_match_header [OF assms(2), of ?n rest] by simp
  have lastH: "last ?H \<noteq> NL" using str_nat_last_not_NL [of ?n] str_nat_nonempty [of ?n] by simp
  obtain x xs where H: "?H = x # xs" by simp
  have "slide_gaps True acc (?H @ NL # c # rest)
        = rev acc # slide_gaps (last (take (length ?H) (?H @ NL # c # rest)) = NL) []
                       (drop (length ?H) (?H @ NL # c # rest))"
    using m by (simp del: md_slide_match_def)
  also have "take (length ?H) (?H @ NL # c # rest) = ?H" by simp
  also have "drop (length ?H) (?H @ NL # c # rest) = NL # c # rest" by simp
  finally have "slide_gaps True acc (?H @ NL # c # rest) = rev acc # slide_gaps False [] (NL # c # rest)"
    using lastH by simp
  then show ?thesis unfolding h by simp
qed

lemma plain_first_char:
  assumes "ls \<noteq> []" "\<forall>l \<in> set ls. plain_line l"
  shows "\<exists>c r. unlines ls = c # r \<and> \<not> is_space c"
proof -
  obtain l ls' where ls: "ls = l # ls'" using assms(1) by (cases ls) auto
  then have "plain_line l" using assms(2) by simp
  then obtain c r where "l = c # r" "\<not> is_space c" by (cases l) (auto simp: plain_line_def)
  then show ?thesis by (simp add: ls unlines_def)
qed

lemma slide_header_hd: "\<exists>r. slide_header s = CHR ''#'' # r"
  by (simp add: slide_header_def)

lemma deck_text_hd: "sls \<noteq> [] \<Longrightarrow> \<exists>r. deck_text s sls = CHR ''#'' # r"
  by (induction s sls rule: deck_text.induct) (simp_all add: slide_header_def)

lemma slide_gaps_deck:
  "0 \<le> s \<Longrightarrow> sls \<noteq> [] \<Longrightarrow>
   slide_gaps True acc (deck_text s sls) = rev acc # deck_gaps s sls"
proof (induction s sls arbitrary: acc rule: deck_text.induct)
  case (1 s)
  then show ?case by simp
next
  case (2 s sl)
  let ?core = "slide_core s sl"
  have pl: "\<forall>l \<in> set ?core. plain_line l" by (rule slide_core_plain)
  have ne: "?core \<noteq> []" by (rule slide_core_nonempty)
  have j: "join_nl ?core = unlines (butlast ?core) @ last ?core"
    using join_nl_snoc_unlines [of "butlast ?core" "last ?core"] ne by simp
  have lastp: "plain_line (last ?core)" using pl ne by simp
  obtain c r where cr: "unlines ?core = c # r" and c: "\<not> is_space c"
    using plain_first_char [OF ne pl] by blast
  have "join_nl ?core @ [NL] = c # r" using unlines_join_nl [OF ne] cr by simp
  moreover have "join_nl ?core \<noteq> []"
    using j lastp by (simp add: plain_line_def)
  ultimately obtain r' where jr: "join_nl ?core = c # r'" by (cases "join_nl ?core") auto
  have "slide_gaps True acc (deck_text s [sl]) = rev acc # slide_gaps True [NL] (join_nl ?core)"
    using slide_gaps_header [OF "2.prems"(1) c, of acc r'] by (simp add: jr)
  also have "slide_gaps True [NL] (join_nl ?core)
             = slide_gaps True (rev (unlines (butlast ?core)) @ [NL]) (last ?core)"
    unfolding j using pl ne by (intro slide_gaps_plain_lines) (auto dest: in_set_butlastD)
  also have "\<dots> = [rev (rev (unlines (butlast ?core)) @ [NL]) @ last ?core]"
    using lastp by (intro slide_gaps_last_line) (simp_all add: plain_line_def, metis append_Nil2)
  finally show ?case by (simp add: j)
next
  case (3 s sl sl' sls)
  let ?core = "slide_core s sl"
  let ?rest = "deck_text (s + 1) (sl' # sls)"
  have pl: "\<forall>l \<in> set ?core. plain_line l" by (rule slide_core_plain)
  have ne: "?core \<noteq> []" by (rule slide_core_nonempty)
  obtain c r where cr: "unlines ?core = c # r" and c: "\<not> is_space c"
    using plain_first_char [OF ne pl] by blast
  obtain h where h: "?rest = CHR ''#'' # h" using deck_text_hd [of "sl' # sls" "s + 1"] by auto
  have "slide_gaps True acc (deck_text s (sl # sl' # sls))
        = slide_gaps True acc (slide_header s @ NL # c # (r @ NL # ?rest))"
    using cr by simp
  also have "\<dots> = rev acc # slide_gaps True [NL] (c # (r @ NL # ?rest))"
    using "3.prems"(1) c by (rule slide_gaps_header)
  also have "c # (r @ NL # ?rest) = unlines ?core @ (NL # ?rest)" using cr by simp
  also have "slide_gaps True [NL] (unlines ?core @ (NL # ?rest))
             = slide_gaps True (rev (unlines ?core) @ [NL]) (NL # ?rest)"
    using pl by (rule slide_gaps_plain_lines)
  also have "\<dots> = slide_gaps True (NL # rev [] @ rev (unlines ?core) @ [NL]) ?rest"
    using slide_gaps_line [of "[]" True ?rest "rev (unlines ?core) @ [NL]"]
    by (simp add: md_slide_match_no_hash)
  also have "\<dots> = rev (NL # rev [] @ rev (unlines ?core) @ [NL]) # deck_gaps (s + 1) (sl' # sls)"
    using "3.IH" "3.prems"(1) by simp
  finally show ?case by simp
qed

lemma deck_gaps_length: "length (deck_gaps s sls) = length sls"
  by (induction s sls rule: deck_gaps.induct) simp_all

lemma in_set_dropWhile: "x \<in> set xs \<Longrightarrow> \<not> P x \<Longrightarrow> x \<in> set (dropWhile P xs)"
  by (induction xs) auto

lemma strip_nonempty: "c \<in> set t \<Longrightarrow> \<not> is_space c \<Longrightarrow> strip t \<noteq> []"
proof -
  assume a: "c \<in> set t" "\<not> is_space c"
  then have "c \<in> set (rstrip t)" by (simp add: rstrip_def in_set_dropWhile)
  then have "c \<in> set (strip t)" using a(2) by (simp add: strip_def lstrip_def in_set_dropWhile)
  then show ?thesis by auto
qed

lemma deck_gaps_nonblank: "\<forall>g \<in> set (deck_gaps s sls). strip g \<noteq> []"
proof (induction s sls rule: deck_gaps.induct)
  case (1 s)
  then show ?case by simp
next
  case (2 s sl)
  obtain c r where cr: "unlines (slide_core s sl) = c # r" and c: "\<not> is_space c"
    using plain_first_char [OF slide_core_nonempty slide_core_plain] by blast
  have "c \<in> set (unlines (slide_core s sl))" by (simp add: cr)
  then have "c \<in> set (join_nl (slide_core s sl) @ [NL])"
    using unlines_join_nl [OF slide_core_nonempty, of s sl] by simp
  then have "c \<in> set (NL # join_nl (slide_core s sl))" by auto
  then show ?case using strip_nonempty [OF _ c] by simp
next
  case (3 s sl sl' sls)
  obtain c r where cr: "unlines (slide_core s sl) = c # r" and c: "\<not> is_space c"
    using plain_first_char [OF slide_core_nonempty slide_core_plain] by blast
  have "c \<in> set (NL # unlines (slide_core s sl) @ [NL])" by (simp add: cr)
  then have "strip (NL # unlines (slide_core s sl) @ [NL]) \<noteq> []" using strip_nonempty [OF _ c] by blast
  then show ?case using 3 by simp
qed

lemma dash_nl_Cons: "dash_nl (a # ys) = ((ys \<noteq> [] \<and> a = CHR ''-'' \<and> hd ys = NL) \<or> dash_nl ys)"
  by (cases ys) auto

lemma dash_nl_append:
  "dash_nl (xs @ ys) =
   (dash_nl xs \<or> dash_nl ys \<or> (xs \<noteq> [] \<and> ys \<noteq> [] \<and> last xs = CHR ''-'' \<and> hd ys = NL))"
proof (induction xs)
  case Nil
  then show ?case by simp
next
  case (Cons a xs)
  show ?case
  proof (cases xs)
    case Nil
    then show ?thesis by (auto simp: dash_nl_Cons)
  next
    case (Cons b r)
    then show ?thesis using Cons.IH by (auto simp: dash_nl_Cons)
  qed
qed

lemma clean_append: "clean xs \<Longrightarrow> clean ys \<Longrightarrow> clean (xs @ ys)"
proof -
  assume x: "clean xs" and y: "clean ys"
  have 1: "\<not> dash_nl (xs @ ys)"
    unfolding dash_nl_append using x y by (auto simp: clean_def)
  have 2: "xs @ ys = [] \<or> last (xs @ ys) \<noteq> CHR ''-''"
  proof (cases "ys = []")
    case True
    then show ?thesis using x by (simp add: clean_def)
  next
    case False
    then show ?thesis using y by (simp add: clean_def)
  qed
  show ?thesis unfolding clean_def using 1 2 by blast
qed

lemma no_NL_no_dash_nl: "NL \<notin> set l \<Longrightarrow> \<not> dash_nl l"
  by (induction l rule: dash_nl.induct) auto

lemma clean_line: "NL \<notin> set l \<Longrightarrow> l = [] \<or> last l \<noteq> CHR ''-'' \<Longrightarrow> clean l"
  by (auto simp: clean_def no_NL_no_dash_nl)

lemma clean_NL: "clean [NL]"
  by (simp add: clean_def)

lemma clean_Nil: "clean []"
  by (simp add: clean_def)

lemma clean_plain: "plain_line l \<Longrightarrow> clean l"
  by (rule clean_line) (simp_all add: plain_line_def)

lemma clean_unlines: "\<forall>l \<in> set ls. plain_line l \<Longrightarrow> clean (unlines ls)"
proof (induction ls)
  case Nil
  then show ?case by (simp add: unlines_def clean_Nil)
next
  case (Cons l ls)
  have "clean (l @ [NL])" using Cons.prems by (intro clean_append clean_plain clean_NL) simp
  moreover have "clean (unlines ls)" using Cons by simp
  ultimately have "clean ((l @ [NL]) @ unlines ls)" by (rule clean_append)
  then show ?case by (simp add: unlines_def)
qed

lemma str_nat_last_digit: "is_digit (last (str_nat n))"
  using str_nat_digits [of n] str_nat_nonempty [of n] last_in_set by blast

lemma clean_slide_header: "clean (slide_header s)"
proof (rule clean_line)
  show "NL \<notin> set (slide_header s)" by (simp add: slide_header_def str_int_no_NL)
  have "last (str_int (s + 1)) = last (str_nat (nat (if s + 1 < 0 then - (s + 1) else s + 1)))"
    by (simp add: str_int_def str_nat_nonempty)
  then have "is_digit (last (str_int (s + 1)))" using str_nat_last_digit by simp
  then have "last (str_int (s + 1)) \<noteq> CHR ''-''" using minus_not_digit by auto
  moreover have "str_int (s + 1) \<noteq> []" by (simp add: str_int_def str_nat_nonempty)
  ultimately show "slide_header s = [] \<or> last (slide_header s) \<noteq> CHR ''-''"
    by (simp add: slide_header_def)
qed

lemma join_nl_core: 
  "join_nl (slide_core s sl) = unlines (butlast (slide_core s sl)) @ last (slide_core s sl)"
  using join_nl_snoc_unlines [of "butlast (slide_core s sl)" "last (slide_core s sl)"]
    slide_core_nonempty [of s sl] by simp

lemma last_core_plain: "plain_line (last (slide_core s sl))"
  using slide_core_plain [of s sl] slide_core_nonempty [of s sl] by simp

lemma butlast_core_plain: "\<forall>l \<in> set (butlast (slide_core s sl)). plain_line l"
  using slide_core_plain [of s sl] by (auto dest: in_set_butlastD)

lemma clean_join_core: "clean (join_nl (slide_core s sl))"
  unfolding join_nl_core
  by (intro clean_append clean_unlines butlast_core_plain clean_plain last_core_plain)

lemma clean_deck_text: "clean (deck_text s sls)"
proof (induction s sls rule: deck_text.induct)
  case (1 s)
  then show ?case by (simp add: clean_Nil)
next
  case (2 s sl)
  have "clean (slide_header s @ [NL] @ join_nl (slide_core s sl))"
    by (intro clean_append clean_slide_header clean_NL clean_join_core)
  then show ?case by simp
next
  case (3 s sl sl' sls)
  have "clean (slide_header s @ [NL] @ unlines (slide_core s sl) @ [NL] @ deck_text (s + 1) (sl' # sls))"
    using 3 by (intro clean_append clean_slide_header clean_NL clean_unlines slide_core_plain)
  then show ?case by simp
qed

lemma dash_nl_tl: "dash_nl s \<Longrightarrow> dash_nl (c # s)"
  by (simp add: dash_nl_Cons)

lemma hr_search_at_dash_nl:
  assumes "hr_search_at s"
  shows "dash_nl s"
proof -
  define r where "r = skip_opt_nl s"
  define tw where "tw = takeWhile (\<lambda>c. c = CHR ''-'') r"
  define dw where "dw = dropWhile (\<lambda>c. c = CHR ''-'') r"
  from assms have t: "3 \<le> length tw" and d: "take 1 dw = [NL]"
    by (simp_all add: hr_search_at_def Let_def r_def tw_def dw_def)
  have r: "r = tw @ dw" by (simp add: tw_def dw_def)
  from t have twne: "tw \<noteq> []" by auto
  then have "last tw \<in> set tw" by simp
  then have lt: "last tw = CHR ''-''" unfolding tw_def by (auto dest: set_takeWhileD)
  from d have dwne: "dw \<noteq> []" and hd: "hd dw = NL" by (cases dw; simp)+
  have "dash_nl r" unfolding r dash_nl_append using twne dwne lt hd by simp
  moreover have "s = r \<or> (\<exists>c. s = c # r)"
    by (cases s) (auto simp: r_def skip_opt_nl_def)
  ultimately show ?thesis by (auto simp: dash_nl_tl)
qed

lemma hr_search_dash_nl: "hr_search s \<Longrightarrow> dash_nl s"
  by (induction s) (auto simp: hr_search_at_dash_nl dash_nl_tl)

lemma no_hr_in_deck_text: "\<not> hr_search (deck_text s sls)"
  using clean_deck_text [of s sls] hr_search_dash_nl by (auto simp: clean_def)

lemma dropWhile_id: "xs = [] \<or> \<not> P (hd xs) \<Longrightarrow> dropWhile P xs = xs"
  by (cases xs) auto

lemma strip_exact:
  assumes "t \<noteq> []" "\<not> is_space (hd t)" "\<not> is_space (last t)"
    "\<forall>c \<in> set pre. is_space c" "\<forall>c \<in> set post. is_space c"
  shows "strip (pre @ t @ post) = t"
proof -
  have "dropWhile is_space (rev post @ rev t @ rev pre) = dropWhile is_space (rev t @ rev pre)"
    using assms(5) by (simp add: dropWhile_append)
  also have "\<dots> = rev t @ rev pre"
    using assms(1,3) by (intro dropWhile_id) (simp add: hd_rev)
  finally have "rstrip (pre @ t @ post) = pre @ t" by (simp add: rstrip_def)
  moreover have "dropWhile is_space (pre @ t) = dropWhile is_space t"
    using assms(4) by (simp add: dropWhile_append)
  moreover have "dropWhile is_space t = t" using assms(1,2) by (intro dropWhile_id) simp
  ultimately show ?thesis by (simp add: strip_def lstrip_def)
qed

lemma join_core_ends:
  "join_nl (slide_core s sl) \<noteq> [] \<and> \<not> is_space (hd (join_nl (slide_core s sl)))
   \<and> \<not> is_space (last (join_nl (slide_core s sl)))"
proof -
  obtain c r where cr: "unlines (slide_core s sl) = c # r" and c: "\<not> is_space c"
    using plain_first_char [OF slide_core_nonempty slide_core_plain] by blast
  have l: "last (slide_core s sl) \<noteq> []" "\<not> is_space (last (last (slide_core s sl)))"
    using last_core_plain [of s sl] by (simp_all add: plain_line_def)
  then have ne: "join_nl (slide_core s sl) \<noteq> []" by (simp add: join_nl_core)
  have "join_nl (slide_core s sl) @ [NL] = c # r"
    using unlines_join_nl [OF slide_core_nonempty, of s sl] cr by simp
  then have "hd (join_nl (slide_core s sl)) = c" using ne by (cases "join_nl (slide_core s sl)") auto
  moreover have "last (join_nl (slide_core s sl)) = last (last (slide_core s sl))"
    using l(1) by (simp add: join_nl_core)
  ultimately show ?thesis using ne c l(2) by simp
qed

lemma strip_deck_gaps: "map strip (deck_gaps s sls) = deck_pages s sls"
proof (induction s sls rule: deck_gaps.induct)
  case (1 s)
  then show ?case by simp
next
  case (2 s sl)
  have "strip ([NL] @ join_nl (slide_core s sl) @ []) = join_nl (slide_core s sl)"
    using join_core_ends [of s sl] by (intro strip_exact) (simp_all add: NL_space)
  then show ?case by simp
next
  case (3 s sl sl' sls)
  have "strip ([NL] @ join_nl (slide_core s sl) @ [NL, NL]) = join_nl (slide_core s sl)"
    using join_core_ends [of s sl] by (intro strip_exact) (simp_all add: NL_space)
  moreover have "unlines (slide_core s sl) = join_nl (slide_core s sl) @ [NL]"
    by (rule unlines_join_nl) (rule slide_core_nonempty)
  ultimately show ?case using 3 by simp
qed

lemma deck_pages_nonblank: "\<forall>p \<in> set (deck_pages s sls). p \<noteq> []"
  by (induction sls arbitrary: s) (simp_all add: join_core_ends)

lemma deck_text_last: "sls \<noteq> [] \<Longrightarrow> deck_text s sls \<noteq> [] \<and> last (deck_text s sls) \<noteq> NL"
proof (induction s sls rule: deck_text.induct)
  case (1 s)
  then show ?case by simp
next
  case (2 s sl)
  have "last (join_nl (slide_core s sl)) \<noteq> NL"
    using join_core_ends [of s sl] NL_space by auto
  then show ?case using join_core_ends [of s sl] by simp
next
  case (3 s sl sl' sls)
  then show ?case by simp
qed

lemma strip_nl_snoc:
  assumes "t \<noteq> []" "hd t \<noteq> NL" "last t \<noteq> NL"
  shows "strip_nl (t @ [NL]) = t"
proof -
  have "dropWhile (\<lambda>c. c = NL) (t @ [NL]) = t @ [NL]"
    using assms(1,2) by (intro dropWhile_id) simp
  moreover have "dropWhile (\<lambda>c. c = NL) (rev t) = rev t"
    using assms(1,3) by (intro dropWhile_id) (simp add: hd_rev)
  ultimately show ?thesis by (simp add: strip_nl_def)
qed

lemma split_deck_text:
  assumes "sls \<noteq> []"
  shows "split_markdown_slides (deck_text 0 sls @ [NL]) = deck_pages 0 sls"
proof -
  let ?T = "deck_text 0 sls"
  obtain h where h: "?T = CHR ''#'' # h" using deck_text_hd [OF assms] by blast
  have st: "strip_nl (?T @ [NL]) = ?T"
    using deck_text_last [OF assms, of 0] h by (intro strip_nl_snoc) simp_all
  have ne: "?T \<noteq> []" using h by simp
  have hr: "\<not> hr_search ?T" by (rule no_hr_in_deck_text)
  have g: "slide_gaps True [] ?T = [] # deck_gaps 0 sls"
    using slide_gaps_deck [of 0 sls "[]"] assms by simp
  obtain b bs where bb: "deck_gaps 0 sls = b # bs"
    using deck_gaps_length [of 0 sls] assms by (cases "deck_gaps 0 sls") auto
  have "split_markdown_slides (?T @ [NL]) = filter (\<lambda>p. p \<noteq> []) (map strip (deck_gaps 0 sls))"
    unfolding split_markdown_slides_def Let_def st using ne hr by (simp add: g bb)
  also have "\<dots> = deck_pages 0 sls"
    unfolding strip_deck_gaps using deck_pages_nonblank [of 0 sls] by simp
  finally show ?thesis .
qed

lemma deck_pages_length: "length (deck_pages s sls) = length sls"
  by (induction sls arbitrary: s) simp_all

lemma deck_pages_nth:
  "i < length sls \<Longrightarrow> deck_pages s sls ! i = join_nl (slide_core (s + int i) (sls ! i))"
proof (induction sls arbitrary: s i)
  case Nil
  then show ?case by simp
next
  case (Cons sl sls)
  show ?case
  proof (cases i)
    case 0
    then show ?thesis by simp
  next
    case (Suc k)
    then have "k < length sls" using Cons.prems by simp
    from Cons.IH [OF this, of "s + 1"] show ?thesis by (simp add: Suc add.assoc)
  qed
qed

lemma split_extracted:
  "split_markdown_slides (fst (pptx_to_markdown prs)) = deck_pages 0 (slides prs)"
proof (cases "slides prs = []")
  case True
  then show ?thesis
    by (simp add: pptx_to_markdown_fst split_markdown_slides_def strip_nl_def)
next
  case False
  then show ?thesis
    by (simp add: pptx_to_markdown_fst join_nl_deck_lines split_deck_text)
qed

text \<open>
  C5. Splitting the markdown that extraction produces yields exactly one page per slide
  of the deck (for every deck, the empty one included), and the page of a slide without
  any text shape is the marker \<open>(No text on this slide)\<close>.
\<close>

theorem slide_count_preserved:
  "length (split_markdown_slides (fst (pptx_to_markdown prs))) = length (slides prs)
   \<and> (\<forall>i < length (slides prs).
         (\<forall>sh \<in> set (shapes (slides prs ! i)). \<not> has_text_frame sh) \<longrightarrow>
         split_markdown_slides (fst (pptx_to_markdown prs)) ! i = ''(No text on this slide)'')"
proof -
  have no_items: "slide_items s j shs = []" if "\<forall>sh \<in> set shs. \<not> has_text_frame sh" for s j shs
    using that by (induction s j shs rule: slide_items.induct) (simp_all add: has_text_frame_def)
  show ?thesis
    unfolding split_extracted
    by (auto simp: deck_pages_length deck_pages_nth slide_core_def no_items)
qed

theorem slide_count_preserved_witness:
  "length (split_markdown_slides (fst (pptx_to_markdown text_deck))) = 3
   \<and> split_markdown_slides (fst (pptx_to_markdown text_deck)) ! 1 = ''(No text on this slide)''"
proof -
  have l: "length (slides text_deck) = 3" by (simp add: text_deck_def)
  have n: "\<forall>sh \<in> set (shapes (slides text_deck ! 1)). \<not> has_text_frame sh"
    by (simp add: text_deck_def has_text_frame_def)
  from slide_count_preserved [of text_deck] l n show ?thesis by simp
qed

subsection \<open>Extraction: short and long shapes\<close>

text \<open>
  C8. The markdown of a deck is, slide by slide, the header line of the slide followed by
  one line per text shape in the order of the shapes (so neighbouring short shapes stay
  neighbours) and an empty line, or by the marker line when the slide has no text shape.
  The line of a shape is \<open>item_line\<close> of its item: a \<open>###\<close> heading when the length is
  at most 10 and a \<open>-\<close> bullet when it exceeds 10; this is what the nested iteration
  over the items appends. The length of a shape is the number of characters of its full
  text with the line feeds removed and the result trimmed.
\<close>

theorem short_text_classification:
  "fst (pptx_to_markdown prs) = join_nl (deck_lines 0 (slides prs))
   \<and> emit_items items 0 md_lines = md_lines @ map item_line items
   \<and> map (\<lambda>it. fst (snd it)) (fst (collect_items s_idx 0 shs ([], ph_map))) =
       map (\<lambda>tf. length (strip (filter (\<lambda>c. c \<noteq> CHR 0x0A) (tf_text tf)))) (List.map_filter id shs)
   \<and> map (\<lambda>it. fst (snd it)) (slide_items s_idx 0 shs) =
       map (\<lambda>tf. length (strip (filter (\<lambda>c. c \<noteq> CHR 0x0A) (tf_text tf)))) (List.map_filter id shs)"
proof -
  have "fst (collect_items s_idx 0 shs ([], ph_map)) = slide_items s_idx 0 shs"
    using collect_items_fst [of s_idx 0 shs "[]" ph_map] by simp
  then show ?thesis
    using pptx_to_markdown_fst [of prs] emit_items_drop [of items 0 md_lines]
      collect_items_lens [of s_idx 0 shs "[]" ph_map]
    by (simp add: text_len_def)
qed

subsection \<open>Writing a page: excess lines\<close>










subsection \<open>Image candidates\<close>

lemma candidates_loop_other:
  "k \<notin> pic_key ` set pics \<Longrightarrow> candidates_loop nets kw pp i pics ret k = ret k"
proof (induction pics arbitrary: i ret)
  case Nil
  then show ?case by simp
next
  case (Cons p pics)
  obtain s r b where p: "p = (s, r, b)" by (cases p)
  from Cons.prems have "k \<noteq> (s, r)" and "k \<notin> pic_key ` set pics"
    by (auto simp: p pic_key_def)
  then show ?case using Cons.IH by (simp add: p Let_def)
qed

lemma candidates_loop_dom:
  "dom (candidates_loop nets kw pp i pics ret) = dom ret \<union> pic_key ` set pics"
proof (induction pics arbitrary: i ret)
  case Nil
  then show ?case by simp
next
  case (Cons p pics)
  obtain s r b where p: "p = (s, r, b)" by (cases p)
  obtain v where step: "candidates_loop nets kw pp i (p # pics) ret
                        = candidates_loop nets kw pp (i + 1) pics (ret((s, r) \<mapsto> v))"
    by (simp add: p Let_def)
  have "dom (candidates_loop nets kw pp (i + 1) pics (ret((s, r) \<mapsto> v)))
        = dom (ret((s, r) \<mapsto> v)) \<union> pic_key ` set pics"
    by (rule Cons.IH)
  also have "\<dots> = dom ret \<union> pic_key ` set (p # pics)"
    by (simp add: p pic_key_def)
  finally show ?case unfolding step .
qed

lemma candidates_loop_entry:
  assumes "distinct (map pic_key pics)" "(s, r, b) \<in> set pics"
  shows "\<exists>c. candidates_loop nets kw pp i pics ret (s, r) = Some \<lparr>origin = b, candidates = c\<rparr>
             \<and> ((\<forall>j. isl (unsplash_search (nets j) kw pp None ''landscape'' ''small'' ''relevant''))
                  \<longrightarrow> c = [])"
  using assms
proof (induction pics arbitrary: i ret)
  case Nil
  then show ?case by simp
next
  case (Cons p pics)
  obtain s' r' b' where p: "p = (s', r', b')" by (cases p)
  show ?case
  proof (cases "(s, r, b) = p")
    case True
    have "pic_key p \<notin> pic_key ` set pics" using Cons.prems(1) by simp
    moreover have "pic_key p = (s, r)" using True by (auto simp: pic_key_def)
    ultimately have k: "(s, r) \<notin> pic_key ` set pics" by simp
    define c where "c = (case unsplash_search (nets i) kw pp None ''landscape'' ''small'' ''relevant'' of
                           Inl exc \<Rightarrow> [] | Inr found \<Rightarrow> found)"
    have "candidates_loop nets kw pp i (p # pics) ret (s, r)
          = candidates_loop nets kw pp (i + 1) pics (ret((s, r) \<mapsto> \<lparr>origin = b, candidates = c\<rparr>)) (s, r)"
      using True [symmetric] by (simp add: Let_def c_def)
    also have "\<dots> = Some \<lparr>origin = b, candidates = c\<rparr>"
      using candidates_loop_other [OF k] by simp
    finally have "candidates_loop nets kw pp i (p # pics) ret (s, r) = Some \<lparr>origin = b, candidates = c\<rparr>" .
    moreover have "(\<forall>j. isl (unsplash_search (nets j) kw pp None ''landscape'' ''small'' ''relevant''))
                   \<longrightarrow> c = []"
    proof
      assume "\<forall>j. isl (unsplash_search (nets j) kw pp None ''landscape'' ''small'' ''relevant'')"
      then have "isl (unsplash_search (nets i) kw pp None ''landscape'' ''small'' ''relevant'')" ..
      then show "c = []" by (cases "unsplash_search (nets i) kw pp None ''landscape'' ''small'' ''relevant''")
          (simp_all add: c_def)
    qed
    ultimately show ?thesis by blast
  next
    case False
    then have "(s, r, b) \<in> set pics" using Cons.prems(2) by simp
    moreover have "distinct (map pic_key pics)" using Cons.prems(1) by simp
    ultimately show ?thesis using Cons.IH by (simp add: p Let_def)
  qed
qed

lemma candidates_loop_origin:
  "candidates_loop nets kw pp i pics ret k = Some c \<Longrightarrow>
   ret k = Some c \<or> (fst k, snd k, origin c) \<in> set pics"
proof (induction pics arbitrary: i ret)
  case Nil
  then show ?case by simp
next
  case (Cons p pics)
  obtain s r b where p: "p = (s, r, b)" by (cases p)
  obtain cand where step: "candidates_loop nets kw pp i (p # pics) ret
      = candidates_loop nets kw pp (i + 1) pics (ret((s, r) \<mapsto> \<lparr>origin = b, candidates = cand\<rparr>))"
    by (simp add: p Let_def)
  from Cons.prems have "candidates_loop nets kw pp (i + 1) pics
      (ret((s, r) \<mapsto> \<lparr>origin = b, candidates = cand\<rparr>)) k = Some c"
    unfolding step .
  from Cons.IH [OF this]
  have "(ret((s, r) \<mapsto> \<lparr>origin = b, candidates = cand\<rparr>)) k = Some c
        \<or> (fst k, snd k, origin c) \<in> set pics" .
  then show ?case
  proof
    assume u: "(ret((s, r) \<mapsto> \<lparr>origin = b, candidates = cand\<rparr>)) k = Some c"
    show ?thesis
    proof (cases "k = (s, r)")
      case True
      then have "c = \<lparr>origin = b, candidates = cand\<rparr>" using u by simp
      then show ?thesis using True by (simp add: p)
    next
      case False
      then show ?thesis using u by simp
    qed
  next
    assume "(fst k, snd k, origin c) \<in> set pics"
    then show ?thesis by simp
  qed
qed

lemma slide_pictures_all2:
  "slide_pictures store s rs = Inr ps \<Longrightarrow>
   list_all2 (picture_of store) (map (\<lambda>x. (s, fst x, snd x)) (filter is_image_rel rs)) ps"
proof (induction rs arbitrary: ps)
  case Nil
  then show ?case by simp
next
  case (Cons x rs)
  obtain r rl where x: "x = (r, rl)" by (cases x)
  show ?case
  proof (cases "is_image_rel x")
    case False
    then show ?thesis using Cons by (simp add: x is_image_rel_def)
  next
    case True
    then have img: "endswith (reltype rl) ''/image''" by (simp add: x is_image_rel_def)
    from Cons.prems img obtain a ps0 where a: "rtarget rl = Part a"
      and r: "slide_pictures store s rs = Inr ps0" and ps: "ps = (s, r, store a) # ps0"
      by (auto simp: x target_part_def split: rel_target.splits sum.splits)
    have "picture_of store (s, r, rl) (s, r, store a)" by (simp add: picture_of_def a)
    then show ?thesis using Cons.IH [OF r] True by (simp add: x ps)
  qed
qed

lemma slide_pictures_ok:
  "\<forall>x \<in> set rs. is_image_rel x \<longrightarrow> (\<exists>a. rtarget (snd x) = Part a) \<Longrightarrow>
   \<exists>ps. slide_pictures store s rs = Inr ps"
proof (induction rs)
  case Nil
  then show ?case by simp
next
  case (Cons x rs)
  obtain r rl where x: "x = (r, rl)" by (cases x)
  from Cons obtain ps where ps: "slide_pictures store s rs = Inr ps" by auto
  show ?case
  proof (cases "is_image_rel x")
    case False
    then show ?thesis using ps by (simp add: x is_image_rel_def)
  next
    case True
    then obtain a where "rtarget rl = Part a" using Cons.prems by (auto simp: x)
    then show ?thesis using ps by (simp add: x target_part_def)
  qed
qed

lemma pictures_from_all2:
  "pictures_from store s sls = Inr ps \<Longrightarrow> list_all2 (picture_of store) (image_rels_from s sls) ps"
proof (induction sls arbitrary: s ps)
  case Nil
  then show ?case by simp
next
  case (Cons sl sls)
  from Cons.prems obtain p1 p2 where a: "slide_pictures store s (rels sl) = Inr p1"
    and b: "pictures_from store (s + 1) sls = Inr p2" and ps: "ps = p1 @ p2"
    by (auto split: sum.splits)
  show ?case
    unfolding ps image_rels_from.simps
    using slide_pictures_all2 [OF a] Cons.IH [OF b] by (rule list_all2_appendI)
qed

lemma pictures_from_ok:
  "\<forall>sl \<in> set sls. \<forall>x \<in> set (rels sl). is_image_rel x \<longrightarrow> (\<exists>a. rtarget (snd x) = Part a) \<Longrightarrow>
   \<exists>ps. pictures_from store s sls = Inr ps"
proof (induction sls arbitrary: s)
  case Nil
  then show ?case by simp
next
  case (Cons sl sls)
  have "\<forall>x \<in> set (rels sl). is_image_rel x \<longrightarrow> (\<exists>a. rtarget (snd x) = Part a)"
    using Cons.prems by simp
  then obtain p1 where a: "slide_pictures store s (rels sl) = Inr p1"
    using slide_pictures_ok by blast
  obtain p2 where b: "pictures_from store (s + 1) sls = Inr p2"
    using Cons.IH [of "s + 1"] Cons.prems by auto
  show ?case using a b by simp
qed

lemma all2_keys:
  "list_all2 (picture_of store) ts ps \<Longrightarrow> map pic_key ps = map (\<lambda>t. (fst t, fst (snd t))) ts"
  by (induction rule: list_all2_induct)
     (auto simp: picture_of_def pic_key_def split: rel_target.splits)

lemma all2_member:
  "list_all2 P xs ys \<Longrightarrow> x \<in> set xs \<Longrightarrow> \<exists>y \<in> set ys. P x y"
  by (induction rule: list_all2_induct) auto

lemma all2_member_right:
  "list_all2 P xs ys \<Longrightarrow> y \<in> set ys \<Longrightarrow> \<exists>x \<in> set xs. P x y"
  by (induction rule: list_all2_induct) auto

lemma image_rels_from_fst: "t \<in> set (image_rels_from s sls) \<Longrightarrow> s \<le> fst t"
proof (induction sls arbitrary: s)
  case Nil
  then show ?case by simp
next
  case (Cons sl sls)
  from Cons.prems consider "fst t = s" | "t \<in> set (image_rels_from (s + 1) sls)" by auto
  then show ?case
  proof cases
    case 1
    then show ?thesis by simp
  next
    case 2
    then show ?thesis using Cons.IH [of "s + 1"] by simp
  qed
qed

lemma image_rels_from_distinct:
  "\<forall>sl \<in> set sls. distinct (map fst (rels sl)) \<Longrightarrow>
   distinct (map (\<lambda>t. (fst t, fst (snd t))) (image_rels_from s sls))"
proof (induction sls arbitrary: s)
  case Nil
  then show ?case by simp
next
  case (Cons sl sls)
  define A where "A = map (\<lambda>t. (fst t, fst (snd t)))
                        (map (\<lambda>x. (s, fst x, snd x)) (filter is_image_rel (rels sl)))"
  define B where "B = map (\<lambda>t. (fst t, fst (snd t))) (image_rels_from (s + 1) sls)"
  have d: "distinct (map fst (filter is_image_rel (rels sl)))"
    using Cons.prems by (simp add: distinct_map_filter)
  have e: "A = map (Pair s) (map fst (filter is_image_rel (rels sl)))"
    by (simp add: A_def comp_def)
  have "inj_on (Pair s) (set (map fst (filter is_image_rel (rels sl))))"
    by (simp add: inj_on_def)
  with d have 1: "distinct A"
    unfolding e distinct_map [of "Pair s"] by blast
  have 2: "distinct B"
    unfolding B_def using Cons.IH [of "s + 1"] Cons.prems by simp
  have 3: "set A \<inter> set B = {}"
  proof (rule ccontr)
    assume "\<not> ?thesis"
    then obtain k where a: "k \<in> set A" and b: "k \<in> set B" by blast
    from a have "fst k = s" unfolding e by auto
    moreover from b obtain t where t: "t \<in> set (image_rels_from (s + 1) sls)" and "fst k = fst t"
      unfolding B_def by auto
    ultimately show False using image_rels_from_fst [OF t] by simp
  qed
  have "map (\<lambda>t. (fst t, fst (snd t))) (image_rels_from s (sl # sls)) = A @ B"
    by (simp add: A_def B_def)
  then show ?case using 1 2 3 by (simp only: distinct_append)
qed

lemma image_rels_from_set:
  "set (image_rels_from s sls) =
   {(s + int i, r, rl) | i r rl. i < length sls \<and> (r, rl) \<in> set (rels (sls ! i)) \<and> is_image_rel (r, rl)}"
proof (induction sls arbitrary: s)
  case Nil
  then show ?case by simp
next
  case (Cons sl sls)
  have ih: "set (image_rels_from (s + 1) sls) =
     {(s + 1 + int i, r, rl) | i r rl. i < length sls \<and> (r, rl) \<in> set (rels (sls ! i)) \<and> is_image_rel (r, rl)}"
    by (rule Cons.IH)
  show ?case
  proof (intro set_eqI iffI)
    fix t assume "t \<in> set (image_rels_from s (sl # sls))"
    then consider "t \<in> (\<lambda>x. (s, fst x, snd x)) ` set (filter is_image_rel (rels sl))"
      | "t \<in> set (image_rels_from (s + 1) sls)" by auto
    then show "t \<in> {(s + int i, r, rl) | i r rl. i < length (sl # sls)
                 \<and> (r, rl) \<in> set (rels ((sl # sls) ! i)) \<and> is_image_rel (r, rl)}"
    proof cases
      case 1
      then obtain r rl where "t = (s, r, rl)" "(r, rl) \<in> set (rels sl)" "is_image_rel (r, rl)" by auto
      then have "t = (s + int 0, r, rl) \<and> 0 < length (sl # sls)
                 \<and> (r, rl) \<in> set (rels ((sl # sls) ! 0)) \<and> is_image_rel (r, rl)" by simp
      then show ?thesis by blast
    next
      case 2
      then obtain i r rl where "t = (s + 1 + int i, r, rl)" "i < length sls"
        "(r, rl) \<in> set (rels (sls ! i))" "is_image_rel (r, rl)" unfolding ih by blast
      then have "t = (s + int (Suc i), r, rl) \<and> Suc i < length (sl # sls)
                 \<and> (r, rl) \<in> set (rels ((sl # sls) ! Suc i)) \<and> is_image_rel (r, rl)" by simp
      then show ?thesis by blast
    qed
  next
    fix t assume "t \<in> {(s + int i, r, rl) | i r rl. i < length (sl # sls)
                 \<and> (r, rl) \<in> set (rels ((sl # sls) ! i)) \<and> is_image_rel (r, rl)}"
    then obtain i r rl where t: "t = (s + int i, r, rl)" and i: "i < length (sl # sls)"
      and m: "(r, rl) \<in> set (rels ((sl # sls) ! i))" and g: "is_image_rel (r, rl)" by blast
    show "t \<in> set (image_rels_from s (sl # sls))"
    proof (cases i)
      case 0
      then have "(r, rl) \<in> set (filter is_image_rel (rels sl))" using m g by simp
      then have "(s, fst (r, rl), snd (r, rl)) \<in> (\<lambda>x. (s, fst x, snd x)) ` set (filter is_image_rel (rels sl))"
        by (rule imageI)
      then show ?thesis using 0 t by simp
    next
      case (Suc j)
      then have "t = (s + 1 + int j, r, rl) \<and> j < length sls
                 \<and> (r, rl) \<in> set (rels (sls ! j)) \<and> is_image_rel (r, rl)"
        using t i m g by simp
      then have "t \<in> set (image_rels_from (s + 1) sls)" unfolding ih by blast
      then show ?thesis by simp
    qed
  qed
qed

lemma image_rels_from_length:
  "length (image_rels_from s sls) = (\<Sum>sl\<leftarrow>sls. length (filter is_image_rel (rels sl)))"
  by (induction sls arbitrary: s) simp_all

lemma is_image_rel_fun: "is_image_rel = (\<lambda>x. endswith (reltype (snd x)) ''/image'')"
  by (rule ext) (simp add: is_image_rel_def)

text \<open>
  C6 (amended). In a deck whose image relationships all target a part of the package (no
  linked picture), and whose slides each have distinct relationship ids (they are the keys
  of a dictionary), \<open>prepare_image_candidates\<close> returns a map whose keys are exactly the
  pairs (slide index, relationship id) of the image relationships of the slides, one
  entry for each of them; the entry of a picture holds the bytes of the part that the
  relationship targets as \<open>origin\<close>, whatever the searches do, and an empty candidate
  list when every search raises.
\<close>

theorem prepare_image_candidates_complete:
  assumes d: "\<forall>sl \<in> set (slides prs). distinct (map fst (rels sl))"
    and nl: "\<forall>sl \<in> set (slides prs). \<forall>(r, rl) \<in> set (rels sl).
               endswith (reltype rl) ''/image'' \<longrightarrow> (\<exists>a. rtarget rl = Part a)"
  shows "\<exists>m. prepare_image_candidates nets prs kw pp = Inr m
       \<and> dom m = {(int i, r) | i r. i < length (slides prs)
                    \<and> (\<exists>rl. (r, rl) \<in> set (rels (slides prs ! i)) \<and> endswith (reltype rl) ''/image'')}
       \<and> card (dom m) =
           (\<Sum>sl\<leftarrow>slides prs. length (filter (\<lambda>x. endswith (reltype (snd x)) ''/image'') (rels sl)))
       \<and> (\<forall>i < length (slides prs). \<forall>(r, rl) \<in> set (rels (slides prs ! i)).
            endswith (reltype rl) ''/image'' \<longrightarrow>
            (\<exists>a c. rtarget rl = Part a
               \<and> m (int i, r) = Some \<lparr>origin = blobs prs a, candidates = c\<rparr>
               \<and> ((\<forall>j. isl (unsplash_search (nets j) kw pp None ''landscape'' ''small'' ''relevant''))
                    \<longrightarrow> c = [])))"
proof -
  define ts where "ts = image_rels_from 0 (slides prs)"
  have "\<forall>sl \<in> set (slides prs). \<forall>x \<in> set (rels sl). is_image_rel x \<longrightarrow> (\<exists>a. rtarget (snd x) = Part a)"
  proof (intro ballI impI)
    fix sl x assume sl: "sl \<in> set (slides prs)" and x: "x \<in> set (rels sl)" and g: "is_image_rel x"
    obtain r rl where xe: "x = (r, rl)" by (cases x)
    from nl sl x have "endswith (reltype rl) ''/image'' \<longrightarrow> (\<exists>a. rtarget rl = Part a)"
      unfolding xe by blast
    then show "\<exists>a. rtarget (snd x) = Part a" using g by (simp add: xe is_image_rel_def)
  qed
  then obtain ps where ep: "extract_pictures prs = Inr ps"
    unfolding extract_pictures_def using pictures_from_ok by blast
  define m where "m = candidates_loop nets kw pp 1 ps Map.empty"
  have pm: "prepare_image_candidates nets prs kw pp = Inr m"
    by (simp add: prepare_image_candidates_def ep m_def)
  have a2: "list_all2 (picture_of (blobs prs)) ts ps"
    unfolding ts_def using ep [unfolded extract_pictures_def] by (rule pictures_from_all2)
  have keys: "map pic_key ps = map (\<lambda>t. (fst t, fst (snd t))) ts" using a2 by (rule all2_keys)
  have dist: "distinct (map pic_key ps)"
    unfolding keys ts_def using d by (rule image_rels_from_distinct)
  have tset: "set ts = {(int i, r, rl) | i r rl. i < length (slides prs)
                 \<and> (r, rl) \<in> set (rels (slides prs ! i)) \<and> endswith (reltype rl) ''/image''}"
    unfolding ts_def image_rels_from_set by (simp add: is_image_rel_def)
  have "dom m = pic_key ` set ps" by (simp add: m_def candidates_loop_dom)
  also have "\<dots> = set (map pic_key ps)" by simp
  also have "\<dots> = (\<lambda>t. (fst t, fst (snd t))) ` set ts" unfolding keys by simp
  also have "\<dots> = {(int i, r) | i r. i < length (slides prs)
                    \<and> (\<exists>rl. (r, rl) \<in> set (rels (slides prs ! i)) \<and> endswith (reltype rl) ''/image'')}"
    unfolding tset by (auto simp: image_iff)
  finally have 1: "dom m = {(int i, r) | i r. i < length (slides prs)
                    \<and> (\<exists>rl. (r, rl) \<in> set (rels (slides prs ! i)) \<and> endswith (reltype rl) ''/image'')}" .
  have "card (dom m) = card (set (map pic_key ps))" by (simp add: m_def candidates_loop_dom)
  also have "\<dots> = length (map pic_key ps)" using dist by (rule distinct_card)
  also have "\<dots> = length ts" unfolding keys by simp
  also have "\<dots> = (\<Sum>sl\<leftarrow>slides prs. length (filter (\<lambda>x. endswith (reltype (snd x)) ''/image'') (rels sl)))"
    unfolding ts_def image_rels_from_length is_image_rel_fun ..
  finally have 2: "card (dom m) =
           (\<Sum>sl\<leftarrow>slides prs. length (filter (\<lambda>x. endswith (reltype (snd x)) ''/image'') (rels sl)))" .
  have 3: "\<exists>a c. rtarget rl = Part a
               \<and> m (int i, r) = Some \<lparr>origin = blobs prs a, candidates = c\<rparr>
               \<and> ((\<forall>j. isl (unsplash_search (nets j) kw pp None ''landscape'' ''small'' ''relevant''))
                    \<longrightarrow> c = [])"
    if i: "i < length (slides prs)" and r: "(r, rl) \<in> set (rels (slides prs ! i))"
      and g: "endswith (reltype rl) ''/image''" for i r rl
  proof -
    have "(int i, r, rl) \<in> set ts" unfolding tset using i r g by blast
    from all2_member [OF a2 this] obtain p where p: "p \<in> set ps"
      and po: "picture_of (blobs prs) (int i, r, rl) p" by blast
    from po obtain a where a: "rtarget rl = Part a" and pe: "p = (int i, r, blobs prs a)"
      by (auto simp: picture_of_def split: rel_target.splits)
    from candidates_loop_entry [OF dist p [unfolded pe], of nets kw pp 1 Map.empty]
    show ?thesis using a unfolding m_def by blast
  qed
  show ?thesis using pm 1 2 3 by blast
qed

text \<open>
  C6 as stated fails on a deck with a linked picture: reading the part of the external
  relationship raises before the loop, and there is no map at all.
\<close>

theorem prepare_image_candidates_complete_counterexample:
  "prepare_image_candidates (\<lambda>_. failing_net) linked_deck ''cat'' 4 = Inl ValueError"
proof -
  have img: "endswith ''http://x/image'' ''/image''" by code_simp
  show ?thesis
    by (simp add: prepare_image_candidates_def extract_pictures_def linked_deck_def
                  target_part_def img)
qed

text \<open>
  An instance of the amended C6: the deck with three picture relationships, on a network
  where every search fails.
\<close>

theorem prepare_image_candidates_complete_witness:
  "\<exists>m. prepare_image_candidates (\<lambda>_. failing_net) picture_deck ''cat'' 4 = Inr m
      \<and> card (dom m) = 3
      \<and> m (1, ''rId3'') = Some \<lparr>origin = ''OLD1'', candidates = []\<rparr>"
proof -
  have wf: "\<forall>sl \<in> set (slides picture_deck). distinct (map fst (rels sl))"
    by (simp add: picture_deck_def)
  have nl: "\<forall>sl \<in> set (slides picture_deck). \<forall>(r, rl) \<in> set (rels sl).
               endswith (reltype rl) ''/image'' \<longrightarrow> (\<exists>a. rtarget rl = Part a)"
    by (simp add: picture_deck_def)
  have us: "\<forall>j :: nat. isl (unsplash_search failing_net ''cat'' 4 None ''landscape'' ''small'' ''relevant'')"
  proof
    fix j :: nat
    have "unsplash_search failing_net ''cat'' 4 None ''landscape'' ''small'' ''relevant'' = Inl UnsplashError"
      by code_simp
    then show "isl (unsplash_search failing_net ''cat'' 4 None ''landscape'' ''small'' ''relevant'')"
      by simp
  qed
  have n: "(\<Sum>sl\<leftarrow>slides picture_deck.
             length (filter (\<lambda>x. endswith (reltype (snd x)) ''/image'') (rels sl))) = 3"
    by code_simp
  have len: "1 < length (slides picture_deck)" by (simp add: picture_deck_def)
  have mem: "(''rId3'', \<lparr>reltype = ''http://x/image'', rtarget = Part 1\<rparr>)
             \<in> set (rels (slides picture_deck ! 1))"
    by (simp add: picture_deck_def)
  have img: "endswith ''http://x/image'' ''/image''" by code_simp
  have o: "blobs picture_deck 1 = ''OLD1''" by (simp add: picture_deck_def)
  from prepare_image_candidates_complete [OF wf nl, of "\<lambda>_. failing_net" "''cat''" 4]
  obtain m where all: "prepare_image_candidates (\<lambda>_. failing_net) picture_deck ''cat'' 4 = Inr m
       \<and> dom m = {(int i, r) | i r. i < length (slides picture_deck)
                    \<and> (\<exists>rl. (r, rl) \<in> set (rels (slides picture_deck ! i)) \<and> endswith (reltype rl) ''/image'')}
       \<and> card (dom m) =
           (\<Sum>sl\<leftarrow>slides picture_deck. length (filter (\<lambda>x. endswith (reltype (snd x)) ''/image'') (rels sl)))
       \<and> (\<forall>i < length (slides picture_deck). \<forall>(r, rl) \<in> set (rels (slides picture_deck ! i)).
            endswith (reltype rl) ''/image'' \<longrightarrow>
            (\<exists>a c. rtarget rl = Part a
               \<and> m (int i, r) = Some \<lparr>origin = blobs picture_deck a, candidates = c\<rparr>
               \<and> ((\<forall>j :: nat. isl (unsplash_search failing_net ''cat'' 4 None ''landscape'' ''small'' ''relevant''))
                    \<longrightarrow> c = [])))" ..
  note pm = all [THEN conjunct1]
  note c = all [THEN conjunct2, THEN conjunct2, THEN conjunct1]
  note e = all [THEN conjunct2, THEN conjunct2, THEN conjunct2]
  from e len have "\<forall>(r, rl) \<in> set (rels (slides picture_deck ! 1)).
            endswith (reltype rl) ''/image'' \<longrightarrow>
            (\<exists>a c. rtarget rl = Part a
               \<and> m (int 1, r) = Some \<lparr>origin = blobs picture_deck a, candidates = c\<rparr>
               \<and> ((\<forall>j :: nat. isl (unsplash_search failing_net ''cat'' 4 None ''landscape'' ''small'' ''relevant''))
                    \<longrightarrow> c = []))"
    by (elim allE impE)
  from bspec [OF this mem] img us
  have "\<exists>c. m (int 1, ''rId3'') = Some \<lparr>origin = blobs picture_deck 1, candidates = c\<rparr> \<and> c = []"
    by simp
  then have "m (1, ''rId3'') = Some \<lparr>origin = ''OLD1'', candidates = []\<rparr>" using o by simp
  then show ?thesis using pm c n by simp
qed

subsection \<open>Rendering: the choice map\<close>

lemma replace_loop_append:
  "replace_loop (xs @ ys) prs = replace_loop ys (replace_loop xs prs)"
  by (induction xs prs rule: replace_loop.induct) simp_all

lemma replace_picture_raises: "replace_picture prs s r b \<noteq> Inr prs'"
  by (simp add: replace_picture_def split: sum.splits option.splits)

lemma replace_loop_same: "replace_loop cs prs = prs"
proof (induction cs prs rule: replace_loop.induct)
  case (1 prs)
  then show ?case by simp
next
  case (2 s_idx r_id blob rest prs)
  have "(case blob of None \<Rightarrow> prs
         | Some b \<Rightarrow> if b = [] then prs
             else (case replace_picture prs s_idx r_id b of Inl exc \<Rightarrow> prs | Inr prs' \<Rightarrow> prs')) = prs"
    using replace_picture_raises [of prs s_idx r_id]
    by (auto split: option.splits sum.splits)
  then show ?case using 2 by simp
qed

lemma write_page_to_slide_rels: "write_page_to_slide sl lines = Inr sl' \<Longrightarrow> rels sl' = rels sl"
  by (auto simp: write_page_to_slide_def Let_def split: list.splits sum.splits)

lemma write_pages_rels:
  "write_pages new_slide idx pages sls = Inr sls' \<Longrightarrow>
   length sls \<le> length sls' \<and> (\<forall>i < length sls. rels (sls' ! i) = rels (sls ! i))"
proof (induction pages arbitrary: idx sls)
  case Nil
  then show ?case by simp
next
  case (Cons md pages)
  define lines where "lines = filter (\<lambda>l. strip l \<noteq> []) (nl_runs_split [] md)"
  define sls1 where "sls1 = (if idx < length sls then sls else sls @ [new_slide])"
  define pos where "pos = (if idx < length sls then idx else length sls)"
  from Cons.prems obtain sl' where w: "write_page_to_slide (sls1 ! pos) lines = Inr sl'"
    and r: "write_pages new_slide (idx + 1) pages (sls1[pos := sl']) = Inr sls'"
    by (auto simp: Let_def lines_def sls1_def pos_def split: sum.splits)
  have rl: "rels sl' = rels (sls1 ! pos)" using w by (rule write_page_to_slide_rels)
  have l1: "length sls \<le> length (sls1[pos := sl'])" by (simp add: sls1_def)
  have r1: "rels (sls1[pos := sl'] ! i) = rels (sls ! i)" if "i < length sls" for i
  proof (cases "i = pos")
    case True
    then have "pos < length sls1" using that by (simp add: sls1_def)
    then have "sls1[pos := sl'] ! i = sl'" using True by simp
    moreover have "sls1 ! pos = sls ! i" using True that by (simp add: sls1_def nth_append)
    ultimately show ?thesis using rl by simp
  next
    case False
    then have "sls1[pos := sl'] ! i = sls1 ! i" by simp
    then show ?thesis using that by (simp add: sls1_def nth_append)
  qed
  from Cons.IH [OF r]
  have "length (sls1[pos := sl']) \<le> length sls'"
    and "\<forall>i < length (sls1[pos := sl']). rels (sls' ! i) = rels (sls1[pos := sl'] ! i)"
    by simp_all
  then show ?case using l1 r1 by auto
qed

lemma render_ppt_result:
  "render_ppt prs md cs = Inr prs' \<Longrightarrow>
   blobs prs' = blobs prs \<and> length (slides prs) \<le> length (slides prs')
   \<and> (\<forall>i < length (slides prs). rels (slides prs' ! i) = rels (slides prs ! i))"
proof -
  assume "render_ppt prs md cs = Inr prs'"
  then obtain bl sls where
    w: "write_pages bl 0 (split_markdown_slides md) (slides prs) = Inr sls"
    and p: "prs' = replace_loop cs (prs\<lparr>slides := sls\<rparr>)"
    by (auto simp: render_ppt_def split: sum.splits)
  have "prs' = prs\<lparr>slides := sls\<rparr>" unfolding p by (rule replace_loop_same)
  then show ?thesis using write_pages_rels [OF w] by simp
qed

lemma candidate_key_picture:
  assumes "prepare_image_candidates nets prs kw pp = Inr m" "m k = Some c"
  shows "\<exists>i rl a. fst k = int i \<and> i < length (slides prs)
           \<and> (snd k, rl) \<in> set (rels (slides prs ! i)) \<and> endswith (reltype rl) ''/image''
           \<and> rtarget rl = Part a \<and> blobs prs a = origin c"
proof -
  from assms(1) obtain ps where ep: "pictures_from (blobs prs) 0 (slides prs) = Inr ps"
    and m: "m = candidates_loop nets kw pp 1 ps Map.empty"
    by (auto simp: prepare_image_candidates_def extract_pictures_def split: sum.splits)
  have "(fst k, snd k, origin c) \<in> set ps"
    using candidates_loop_origin [of nets kw pp 1 ps Map.empty k c] assms(2) m by simp
  from all2_member_right [OF pictures_from_all2 [OF ep] this]
  obtain t where t: "t \<in> set (image_rels_from 0 (slides prs))"
    and po: "picture_of (blobs prs) t (fst k, snd k, origin c)" by blast
  from t obtain i r rl where te: "t = (int i, r, rl)" and i: "i < length (slides prs)"
    and mem: "(r, rl) \<in> set (rels (slides prs ! i))" and g: "is_image_rel (r, rl)"
    unfolding image_rels_from_set by auto
  from po obtain a where "rtarget rl = Part a" "fst k = int i" "snd k = r" "origin c = blobs prs a"
    by (auto simp: picture_of_def te split: rel_target.splits)
  then show ?thesis using i mem g by (auto simp: is_image_rel_def)
qed

text \<open>
  C7. A choice map that omits a key renders the same deck as the map with \<open>None\<close> for
  that key, and whether \<open>render_ppt\<close> raises does not depend on the choice map at all;
  indeed the rendered deck is the one that the empty choice map gives.
  For every key of the candidate map, the rendered deck still has, on the slide of the
  key, the image relationship of the key, and the part it targets holds the bytes that the
  candidate step recorded as \<open>origin\<close>. This holds whatever the choice map gives for the
  key, so in particular when it omits the key or maps it to \<open>None\<close>: the replacement
  statement always raises, and the exception is swallowed.
\<close>

theorem render_ppt_missing_choice:
  "render_ppt prs md (cs1 @ (k, None) # cs2) = render_ppt prs md (cs1 @ cs2)
   \<and> isl (render_ppt prs md cs) = isl (render_ppt prs md [])
   \<and> render_ppt prs md cs = render_ppt prs md []
   \<and> (\<forall>prs' m c. render_ppt prs md cs = Inr prs'
         \<longrightarrow> prepare_image_candidates nets prs kw pp = Inr m \<longrightarrow> m k = Some c
         \<longrightarrow> (\<exists>i rl a. fst k = int i \<and> i < length (slides prs')
                 \<and> (snd k, rl) \<in> set (rels (slides prs' ! i)) \<and> endswith (reltype rl) ''/image''
                 \<and> rtarget rl = Part a \<and> blobs prs' a = origin c))"
proof -
  have 1: "render_ppt prs md (cs1 @ (k, None) # cs2) = render_ppt prs md (cs1 @ cs2)"
    by (cases k) (simp add: render_ppt_def replace_loop_append split: sum.splits)
  have 2: "isl (render_ppt prs md cs) = isl (render_ppt prs md [])"
    by (simp add: render_ppt_def split: sum.splits)
  have 4: "render_ppt prs md cs = render_ppt prs md []"
    by (simp add: render_ppt_def replace_loop_same split: sum.splits)
  have 3: "\<exists>i rl a. fst k = int i \<and> i < length (slides prs')
                 \<and> (snd k, rl) \<in> set (rels (slides prs' ! i)) \<and> endswith (reltype rl) ''/image''
                 \<and> rtarget rl = Part a \<and> blobs prs' a = origin c"
    if r: "render_ppt prs md cs = Inr prs'"
      and p: "prepare_image_candidates nets prs kw pp = Inr m" and mk: "m k = Some c" for prs' m c
  proof -
    from candidate_key_picture [OF p mk] obtain i rl a where
      k: "fst k = int i" and i: "i < length (slides prs)"
      and mem: "(snd k, rl) \<in> set (rels (slides prs ! i))"
      and g: "endswith (reltype rl) ''/image''" and a: "rtarget rl = Part a"
      and b: "blobs prs a = origin c" by blast
    from render_ppt_result [OF r] have bl: "blobs prs' = blobs prs"
      and le: "length (slides prs) \<le> length (slides prs')"
      and rs: "rels (slides prs' ! i) = rels (slides prs ! i)"
      using i by simp_all
    have "fst k = int i \<and> i < length (slides prs')
          \<and> (snd k, rl) \<in> set (rels (slides prs' ! i)) \<and> endswith (reltype rl) ''/image''
          \<and> rtarget rl = Part a \<and> blobs prs' a = origin c"
      using k i le mem g a b unfolding rs bl by simp
    then show ?thesis by blast
  qed
  show ?thesis using 1 2 3 4 by blast
qed

text \<open>
  An instance of C7: in \<open>picture_deck\<close> the choice map gives new bytes for the picture
  of the first slide and omits the key \<open>(1, rId2)\<close> of the second slide, which shows the
  same part; after rendering the part still holds the old bytes.
\<close>

theorem render_ppt_missing_choice_witness:
  "render_ppt picture_deck [] demo_choices = render_ppt picture_deck [] [((0, ''rId2''), Some ''NEW'')]
   \<and> (\<exists>prs'. render_ppt picture_deck [] demo_choices = Inr prs'
        \<and> (\<exists>i rl a. (1 :: int) = int i \<and> i < length (slides prs')
              \<and> (''rId2'', rl) \<in> set (rels (slides prs' ! i)) \<and> endswith (reltype rl) ''/image''
              \<and> rtarget rl = Part a \<and> blobs prs' a = ''OLD0''))"
proof -
  obtain prs' where r: "render_ppt picture_deck [] demo_choices = Inr prs'"
    by (simp add: render_ppt_def py_index_def picture_deck_def split_markdown_slides_def strip_nl_def)
  define m where "m = candidates_loop (\<lambda>_. failing_net) ''cat'' 4 1
                        [(0, ''rId2'', ''OLD0''), (1, ''rId2'', ''OLD0''), (1, ''rId3'', ''OLD1'')] Map.empty"
  have img: "endswith ''http://x/image'' ''/image''" "\<not> endswith ''http://x/slideLayout'' ''/image''"
    by code_simp+
  have p: "prepare_image_candidates (\<lambda>_. failing_net) picture_deck ''cat'' 4 = Inr m"
    by (simp add: prepare_image_candidates_def extract_pictures_def picture_deck_def
                  target_part_def img m_def)
  obtain c where mk: "m (1, ''rId2'') = Some c" and o: "origin c = ''OLD0''"
    by (simp add: m_def Let_def)
  from render_ppt_missing_choice
         [of picture_deck "[]" "[((0, ''rId2''), Some ''NEW'')]" "(1, ''rId3'')" "[]" demo_choices
             "\<lambda>_. failing_net" "''cat''" 4]
  have e: "render_ppt picture_deck [] demo_choices = render_ppt picture_deck [] [((0, ''rId2''), Some ''NEW'')]"
    by (simp add: demo_choices_def)
  from render_ppt_missing_choice
         [of picture_deck "[]" "[]" "(1, ''rId2'')" "[]" demo_choices "\<lambda>_. failing_net" "''cat''" 4]
  have "\<exists>i rl a. (1 :: int) = int i \<and> i < length (slides prs')
              \<and> (''rId2'', rl) \<in> set (rels (slides prs' ! i)) \<and> endswith (reltype rl) ''/image''
              \<and> rtarget rl = Part a \<and> blobs prs' a = origin c"
    using r p mk by simp
  then have x: "\<exists>i rl a. (1 :: int) = int i \<and> i < length (slides prs')
              \<and> (''rId2'', rl) \<in> set (rels (slides prs' ! i)) \<and> endswith (reltype rl) ''/image''
              \<and> rtarget rl = Part a \<and> blobs prs' a = ''OLD0''"
    unfolding o .
  show ?thesis using e r x by blast
qed

subsection \<open>Deduplication\<close>

lemma filter_map_Suc: "filter P (map Suc xs) = map Suc (filter (\<lambda>i. P (Suc i)) xs)"
  by (induction xs) auto

lemma removed_line_Suc:
  "removed_line seen (l # ls) (Suc i) =
   removed_line (if is_zero_len l then insert (dedup_key l) seen else seen) ls i"
  by (auto simp: removed_line_def earlier_same_key_def Ex_less_Suc2)

lemma removed_line_0: "removed_line seen (l # ls) 0 = (is_zero_len l \<and> dedup_key l \<in> seen)"
  by (simp add: removed_line_def earlier_same_key_def)

lemma kept_upt_Cons:
  "map ((!) (l # ls)) (filter (\<lambda>i. \<not> removed_line seen (l # ls) i) [0..<length (l # ls)]) =
   (if removed_line seen (l # ls) 0 then [] else [l])
   @ map ((!) ls) (filter (\<lambda>i. \<not> removed_line seen (l # ls) (Suc i)) [0..<length ls])"
proof -
  have "[0..<length (l # ls)] = 0 # map Suc [0..<length ls]"
    by (simp add: upt_conv_Cons map_Suc_upt del: upt_Suc)
  then show ?thesis by (simp add: filter_map_Suc comp_def del: upt_Suc)
qed

lemma dedup_lines_seen:
  "dedup_lines seen ls =
   map ((!) ls) (filter (\<lambda>i. \<not> removed_line seen ls i) [0..<length ls])"
proof (induction ls arbitrary: seen)
  case Nil
  then show ?case by simp
next
  case (Cons l ls)
  show ?case
  proof (cases "is_zero_len l")
    case False
    then show ?thesis
      unfolding kept_upt_Cons by (simp add: removed_line_0 removed_line_Suc Cons.IH)
  next
    case z: True
    show ?thesis
    proof (cases "dedup_key l \<in> seen")
      case True
      then have "insert (dedup_key l) seen = seen" by auto
      then show ?thesis
        unfolding kept_upt_Cons using z True by (simp add: removed_line_0 removed_line_Suc Cons.IH)
    next
      case False
      then show ?thesis
        unfolding kept_upt_Cons using z by (simp add: removed_line_0 removed_line_Suc Cons.IH)
    qed
  qed
qed

text \<open>
  What the deduplication does: its key is the whole line with every length comment
  removed, trimmed. Among the lines with a zero length hint, a line is removed exactly when
  an earlier zero-hint line has the same key; every other line is kept, in order.
\<close>

lemma dedup_lines_by_key:
  "dedup_lines {} ls =
   map ((!) ls)
     (filter (\<lambda>i. \<not> (is_zero_len (ls ! i)
                      \<and> (\<exists>j<i. is_zero_len (ls ! j) \<and> dedup_key (ls ! j) = dedup_key (ls ! i))))
        [0..<length ls])
   \<and> dedup_key ln = strip (len_sub ln)
   \<and> unlock_and_dedup md zero_lines False
       = rstrip (concat (dedup_lines {} (split_lines_keep_eol (lock_sub md))))"
  by (simp add: dedup_lines_seen removed_line_def earlier_same_key_def dedup_key_def
                unlock_and_dedup_def Let_def)

text \<open>
  C3. The code does not do what the claim and the comment above the loop say (``of the
  placeholders with length 0 only the first occurrence is kept''): the text
  \<open>same_token_md\<close> has two lines with a zero length hint that carry the same token
  \<open>{{S1_P1}}\<close>, one a heading and one a bullet. Their keys differ, and
  \<open>_unlock_and_dedup\<close> returns the text unchanged, with both lines.
\<close>

theorem dedup_same_token_both_kept:
  "split_lines_keep_eol (lock_sub same_token_md)
     = [''### {{S1_P1}} <!--len:0-->'' @ [NL], ''- {{S1_P1}} <!--len:0-->'', []]
   \<and> is_zero_len (''### {{S1_P1}} <!--len:0-->'' @ [NL])
   \<and> is_zero_len ''- {{S1_P1}} <!--len:0-->''
   \<and> dedup_key (''### {{S1_P1}} <!--len:0-->'' @ [NL]) = ''### {{S1_P1}}''
   \<and> dedup_key ''- {{S1_P1}} <!--len:0-->'' = ''- {{S1_P1}}''
   \<and> unlock_and_dedup same_token_md [] False = same_token_md
   \<and> unlock_and_dedup same_token_md [] True = ''### {{S1_P1}} '' @ [NL] @ ''- {{S1_P1}}''"
  by code_simp

subsection \<open>The second pass of unlock and dedup\<close>

lemma expect_Nil: "lit \<noteq> [] \<Longrightarrow> expect lit [] = None"
  by (simp add: expect_def)

lemma expect_append_space:
  assumes "lit \<noteq> []" "\<forall>c \<in> set lit. \<not> is_space c" "all_space ws"
  shows "expect lit (t @ ws) = map_option (\<lambda>r. r @ ws) (expect lit t)"
proof (cases "length lit \<le> length t")
  case True
  then show ?thesis by (simp add: expect_def)
next
  case False
  then have short: "length t < length lit" by simp
  then have n: "expect lit t = None" by (auto simp: expect_def)
  have "take (length lit) (t @ ws) \<noteq> lit"
  proof
    assume e: "take (length lit) (t @ ws) = lit"
    then have "length (take (length lit) (t @ ws)) = length lit" by simp
    then have "length lit \<le> length t + length ws" by simp
    then have "length t < length t + length ws" using short by linarith
    then have i: "length t < length (t @ ws)" by simp
    have "lit ! length t = (t @ ws) ! length t"
      using e short by (metis nth_take)
    also have "\<dots> = ws ! 0" by (simp add: nth_append)
    finally have "lit ! length t = ws ! 0" .
    moreover have "ws \<noteq> []" using i by auto
    then have "is_space (ws ! 0)" using assms(3) by (cases ws) (auto simp: all_space_def)
    moreover have "\<not> is_space (lit ! length t)" using assms(2) short by simp
    ultimately show False by simp
  qed
  then show ?thesis using n by (simp add: expect_def)
qed

lemma dropWhile_space_append:
  assumes "all_space ws"
  shows "dropWhile is_space (t @ ws) = (if all_space t then [] else dropWhile is_space t @ ws)"
proof (cases "all_space t")
  case True
  then have "\<forall>c \<in> set (t @ ws). is_space c" using assms by (auto simp: all_space_def)
  then show ?thesis using True by (simp del: set_append)
next
  case False
  then obtain c where "c \<in> set t" "\<not> is_space c" by (auto simp: all_space_def)
  then show ?thesis using False by (simp add: dropWhile_append1)
qed

lemma expect_dropWhile_space_append:
  assumes "lit \<noteq> []" "\<forall>c \<in> set lit. \<not> is_space c" "all_space ws"
  shows "expect lit (dropWhile is_space (t @ ws))
         = map_option (\<lambda>r. r @ ws) (expect lit (dropWhile is_space t))"
proof (cases "all_space t")
  case True
  then have a: "dropWhile is_space t = []" by (simp add: all_space_def)
  have b: "dropWhile is_space (t @ ws) = []"
    using True assms(3) by (simp add: dropWhile_space_append)
  show ?thesis unfolding a b by (simp add: expect_Nil [OF assms(1)])
next
  case False
  then show ?thesis
    using assms by (simp add: dropWhile_space_append expect_append_space)
qed

lemma space_not_digit: "is_space c \<Longrightarrow> \<not> is_digit c"
  using digit_not_space by blast

lemma takeWhile_digit_append_space:
  "all_space ws \<Longrightarrow> takeWhile is_digit (t @ ws) = takeWhile is_digit t"
proof (induction t)
  case Nil
  then show ?case by (cases ws) (auto simp: all_space_def space_not_digit)
next
  case (Cons a t)
  then show ?case by simp
qed

lemma dropWhile_digit_append_space:
  "all_space ws \<Longrightarrow> dropWhile is_digit (t @ ws) = dropWhile is_digit t @ ws"
proof (induction t)
  case Nil
  then show ?case by (cases ws) (auto simp: all_space_def space_not_digit)
next
  case (Cons a t)
  then show ?case by simp
qed

lemma len_match_append_space:
  assumes "all_space ws"
  shows "len_match (t @ ws) = map_option (\<lambda>(ds, r). (ds, r @ ws)) (len_match t)"
proof -
  have a: "expect ''<!--'' (t @ ws) = map_option (\<lambda>r. r @ ws) (expect ''<!--'' t)"
    using assms by (intro expect_append_space) (simp_all add: is_space_def)
  have b: "expect ''len:'' (dropWhile is_space (r @ ws))
           = map_option (\<lambda>r. r @ ws) (expect ''len:'' (dropWhile is_space r))" for r
    using assms by (intro expect_dropWhile_space_append) (simp_all add: is_space_def)
  have c: "expect ''-->'' (dropWhile is_space (r @ ws))
           = map_option (\<lambda>r. r @ ws) (expect ''-->'' (dropWhile is_space r))" for r
    using assms by (intro expect_dropWhile_space_append) (simp_all add: is_space_def)
  show ?thesis
    unfolding len_match_def a
    by (cases "expect ''<!--'' t")
       (auto simp: b c takeWhile_digit_append_space [OF assms]
                   dropWhile_digit_append_space [OF assms]
             split: Option.bind_splits)
qed

lemma len_match_space: "all_space ws \<Longrightarrow> len_match ws = None"
  using len_match_append_space [of ws "[]"] by (simp add: len_match_def expect_def)

lemma all_space_tl: "all_space (c # ws) \<Longrightarrow> all_space ws"
  by (simp add: all_space_def)

lemma len_search_space: "all_space ws \<Longrightarrow> len_search ws = None"
proof (induction ws)
  case Nil
  then show ?case by simp
next
  case (Cons c ws)
  then show ?case using len_match_space [of "c # ws"] by (simp add: all_space_tl)
qed

lemma len_sub_space: "all_space ws \<Longrightarrow> len_sub ws = ws"
proof (induction ws)
  case Nil
  then show ?case by simp
next
  case (Cons c ws)
  then show ?case using len_match_space [of "c # ws"] by (simp add: all_space_tl)
qed

lemma len_search_append_space:
  "all_space ws \<Longrightarrow> len_search (t @ ws) = len_search t"
proof (induction t)
  case Nil
  then show ?case by (simp add: len_search_space)
next
  case (Cons c t)
  have "len_match ((c # t) @ ws) = map_option (\<lambda>(ds, r). (ds, r @ ws)) (len_match (c # t))"
    using Cons.prems by (rule len_match_append_space)
  then show ?case using Cons by (auto split: option.splits)
qed

lemma len_sub_append_space:
  "all_space ws \<Longrightarrow> len_sub (t @ ws) = len_sub t @ ws"
proof (induction t rule: len_sub.induct)
  case 1
  then show ?case by (simp add: len_sub_space)
next
  case (2 c cs)
  have m: "len_match ((c # cs) @ ws) = map_option (\<lambda>(ds, r). (ds, r @ ws)) (len_match (c # cs))"
    using "2.prems" by (rule len_match_append_space)
  show ?case
  proof (cases "len_match (c # cs)")
    case None
    then show ?thesis using m 2 by simp
  next
    case (Some p)
    obtain ds r where p: "p = (ds, r)" by (cases p)
    then show ?thesis using m 2 Some by simp
  qed
qed

lemma split_from_concat: "concat (split_from acc t) = rev acc @ t"
  by (induction t arbitrary: acc) auto

lemma split_from_line:
  "NL \<notin> set l \<Longrightarrow> split_from acc (l @ NL # t) = (rev acc @ l @ [NL]) # split_from [] t"
  by (induction l arbitrary: acc) auto

lemma split_from_tail:
  "NL \<notin> set l \<Longrightarrow> split_from acc l = (if rev acc @ l = [] then [[]] else [rev acc @ l, []])"
  by (induction l arbitrary: acc) auto

lemma split_line:
  assumes "x \<noteq> []" "NL \<notin> set (butlast x)" "last x = NL"
  shows "split_lines_keep_eol (x @ t) = x # split_lines_keep_eol t"
proof -
  have x: "x = butlast x @ [NL]" using assms(1,3) by (metis append_butlast_last_id)
  have "split_from [] (butlast x @ NL # t) = (rev [] @ butlast x @ [NL]) # split_from [] t"
    using assms(2) by (rule split_from_line)
  then show ?thesis unfolding split_lines_keep_eol_def by (metis x append.assoc append_Cons append_Nil rev.simps(1))
qed

lemma split_tail:
  assumes "NL \<notin> set x"
  shows "split_lines_keep_eol x = (if x = [] then [[]] else [x, []])"
  unfolding split_lines_keep_eol_def using split_from_tail [OF assms, of "[]"] by simp

lemma linelike_split_concat: "linelike ls \<Longrightarrow> split_lines_keep_eol (concat ls) = ls"
proof (induction ls rule: linelike.induct)
  case 1
  then show ?case by simp
next
  case (2 x)
  then show ?case by (simp add: split_tail)
next
  case (3 x y r)
  then have x: "x \<noteq> []" "NL \<notin> set (butlast x)" and ll: "linelike (y # r)"
    and c: "(y = [] \<and> r = []) \<or> last x = NL" by simp_all
  show ?case
  proof (cases "last x = NL")
    case True
    have "split_lines_keep_eol (x @ concat (y # r)) = x # split_lines_keep_eol (concat (y # r))"
      using x True by (rule split_line)
    then show ?thesis using "3.IH" ll by simp
  next
    case False
    then have yr: "y = []" "r = []" using c by auto
    have "NL \<notin> set x"
    proof
      assume "NL \<in> set x"
      then have "NL \<in> set (butlast x @ [last x])" using x(1) by simp
      then show False using x(2) False by auto
    qed
    then show ?thesis using x(1) by (simp add: yr split_tail)
  qed
qed

lemma linelike_split_from: "NL \<notin> set acc \<Longrightarrow> linelike (split_from acc t)"
proof (induction t arbitrary: acc)
  case Nil
  then show ?case by (auto simp: butlast_rev dest: list.set_sel(2))
next
  case (Cons c t)
  show ?case
  proof (cases "c = NL")
    case True
    have ll: "linelike (split_from [] t)" using Cons.IH [of "[]"] by simp
    obtain y r where yr: "split_from [] t = y # r"
      using ll by (cases "split_from [] t") auto
    have "linelike ((rev acc @ [NL]) # y # r)"
      using ll Cons.prems by (simp add: yr butlast_append)
    then show ?thesis using True by (simp add: yr)
  next
    case False
    then show ?thesis using Cons by simp
  qed
qed

lemma linelike_split: "linelike (split_lines_keep_eol t)"
  unfolding split_lines_keep_eol_def by (rule linelike_split_from) simp

lemma concat_split: "concat (split_lines_keep_eol t) = t"
  by (simp add: split_lines_keep_eol_def split_from_concat)

lemma not_zero_Nil: "\<not> is_zero_len []"
  by (simp add: is_zero_len_def)

lemma linelike_last: "linelike ls \<Longrightarrow> ls \<noteq> [] \<and> last ls = []"
  by (induction ls rule: linelike.induct) auto

lemma dedup_lines_last:
  "ls \<noteq> [] \<Longrightarrow> last ls = [] \<Longrightarrow> dedup_lines seen ls \<noteq> [] \<and> last (dedup_lines seen ls) = []"
proof (induction ls arbitrary: seen)
  case Nil
  then show ?case by simp
next
  case (Cons l ls)
  show ?case
  proof (cases "ls = []")
    case True
    then show ?thesis using Cons.prems by (simp add: not_zero_Nil)
  next
    case False
    then show ?thesis using Cons by auto
  qed
qed

lemma linelike_dedup: "linelike ls \<Longrightarrow> linelike (dedup_lines seen ls)"
proof (induction ls arbitrary: seen rule: linelike.induct)
  case 1
  then show ?case by simp
next
  case (2 x)
  then show ?case by (simp add: not_zero_Nil)
next
  case (3 x y r)
  then have ll: "linelike (y # r)" by simp
  have d: "linelike (dedup_lines s (y # r))" for s using "3.IH" ll by simp
  have keep: "linelike (x # dedup_lines s (y # r))" for s
  proof (cases "y = [] \<and> r = []")
    case True
    then have e: "dedup_lines s (y # r) = [[]]" by (simp add: not_zero_Nil)
    show ?thesis unfolding e using "3.prems" by simp
  next
    case False
    then have lx: "last x = NL" and x: "x \<noteq> []" "NL \<notin> set (butlast x)" using "3.prems" by auto
    obtain m ms where m: "dedup_lines s (y # r) = m # ms"
      using d [of s] by (cases "dedup_lines s (y # r)") auto
    show ?thesis
    proof (cases ms)
      case Nil
      then have "m = []" using d [of s] m by simp
      then show ?thesis unfolding m Nil using x by simp
    next
      case (Cons m' ms')
      have "linelike (m # m' # ms')" using d [of s] unfolding m Cons .
      then show ?thesis unfolding m Cons using x lx by simp
    qed
  qed
  show ?case
  proof (cases "is_zero_len x \<and> dedup_key x \<in> seen")
    case True
    then have "dedup_lines seen (x # y # r) = dedup_lines seen (y # r)" by simp
    then show ?thesis using d by simp
  next
    case False
    then obtain s where "dedup_lines seen (x # y # r) = x # dedup_lines s (y # r)"
      by (cases "is_zero_len x") auto
    then show ?thesis using keep by simp
  qed
qed

lemma rstrip_all_space: "all_space t \<Longrightarrow> rstrip t = []"
  by (simp add: rstrip_def all_space_def)

lemma rstrip_append_keep: "\<not> all_space ys \<Longrightarrow> rstrip (xs @ ys) = xs @ rstrip ys"
proof -
  assume "\<not> all_space ys"
  then obtain c where "c \<in> set (rev ys)" "\<not> is_space c" by (auto simp: all_space_def)
  then have "dropWhile is_space (rev ys @ rev xs) = dropWhile is_space (rev ys) @ rev xs"
    by (simp add: dropWhile_append1)
  then show ?thesis by (simp add: rstrip_def)
qed

lemma rstrip_append_space: "all_space ys \<Longrightarrow> rstrip (xs @ ys) = rstrip xs"
  by (simp add: rstrip_def all_space_def dropWhile_append)

lemma rstrip_decomp: "\<exists>ws. t = rstrip t @ ws \<and> all_space ws"
proof -
  have "rev t = takeWhile is_space (rev t) @ dropWhile is_space (rev t)" by simp
  then have "t = rev (dropWhile is_space (rev t)) @ rev (takeWhile is_space (rev t))"
    by (metis rev_append rev_rev_ident)
  moreover have "all_space (rev (takeWhile is_space (rev t)))"
    by (auto simp: all_space_def dest: set_takeWhileD)
  ultimately show ?thesis unfolding rstrip_def by blast
qed

lemma rstrip_last: "rstrip t \<noteq> [] \<Longrightarrow> \<not> is_space (last (rstrip t))"
  unfolding rstrip_def by (simp add: last_rev hd_dropWhile)

lemma rstrip_idem: "rstrip (rstrip t) = rstrip t"
proof (cases "rstrip t = []")
  case True
  then show ?thesis by (simp add: rstrip_def)
next
  case False
  then have "\<not> is_space (hd (rev (rstrip t)))" using rstrip_last [OF False] by (simp add: hd_rev)
  then have "dropWhile is_space (rev (rstrip t)) = rev (rstrip t)"
    using False by (cases "rev (rstrip t)") auto
  then show ?thesis by (simp add: rstrip_def [of "rstrip t"])
qed

lemma rstrip_space_in_butlast:
  assumes "c \<in> set (rstrip x)" "is_space c"
  shows "c \<in> set (butlast x)"
proof -
  obtain ws where x: "x = rstrip x @ ws" and ws: "all_space ws" using rstrip_decomp by blast
  show ?thesis
  proof (cases "ws = []")
    case True
    then have e: "rstrip x = x" using x by simp
    then have ne: "x \<noteq> []" using assms(1) by auto
    have "\<not> is_space (last x)" using rstrip_last [of x] e ne by simp
    then have "c \<noteq> last x" using assms(2) by auto
    moreover have "c \<in> set (butlast x @ [last x])" using assms(1) e ne by simp
    ultimately show ?thesis by simp
  next
    case False
    then have "butlast x = rstrip x @ butlast ws"
      using x by (metis butlast_append)
    then show ?thesis using assms(1) by simp
  qed
qed

lemma rstrip_line_no_NL: "NL \<notin> set (butlast x) \<Longrightarrow> NL \<notin> set (rstrip x)"
  using rstrip_space_in_butlast [of NL x] NL_space by blast

lemma is_zero_len_rstrip: "is_zero_len (rstrip l) = is_zero_len l"
proof -
  obtain ws where x: "l = rstrip l @ ws" and ws: "all_space ws" using rstrip_decomp by blast
  have "len_search (rstrip l @ ws) = len_search (rstrip l)" using ws by (rule len_search_append_space)
  then show ?thesis unfolding is_zero_len_def using x by simp
qed

lemma dedup_key_rstrip: "dedup_key (rstrip l) = dedup_key l"
proof -
  obtain ws where x: "l = rstrip l @ ws" and ws: "all_space ws" using rstrip_decomp by blast
  have "len_sub (rstrip l @ ws) = len_sub (rstrip l) @ ws" using ws by (rule len_sub_append_space)
  then have "len_sub l = len_sub (rstrip l) @ ws" using x by simp
  then have "rstrip (len_sub l) = rstrip (len_sub (rstrip l))"
    using rstrip_append_space [OF ws] by simp
  then show ?thesis by (simp add: dedup_key_def strip_def)
qed

lemma dedup_lines_length: "length (dedup_lines seen ls) \<le> length ls"
  by (induction ls arbitrary: seen) (auto simp: le_SucI)

lemma dedup_lines_kept_head:
  assumes "dedup_lines seen (l # ls) = l # ls"
  shows "\<not> (is_zero_len l \<and> dedup_key l \<in> seen)
         \<and> dedup_lines (if is_zero_len l then insert (dedup_key l) seen else seen) ls = ls"
proof (cases "is_zero_len l \<and> dedup_key l \<in> seen")
  case True
  then have "dedup_lines seen (l # ls) = dedup_lines seen ls" by simp
  then have "length (l # ls) \<le> length ls" using assms dedup_lines_length [of seen ls] by simp
  then show ?thesis by simp
next
  case False
  then show ?thesis using assms by (cases "is_zero_len l") auto
qed

lemma dedup_lines_idem: "dedup_lines seen (dedup_lines seen ls) = dedup_lines seen ls"
  by (induction ls arbitrary: seen) auto

lemma dedup_lines_no_zero: "\<forall>l \<in> set ls. \<not> is_zero_len l \<Longrightarrow> dedup_lines seen ls = ls"
  by (induction ls arbitrary: seen) auto

lemma dedup_rstrip_fix:
  "linelike K \<Longrightarrow> dedup_lines seen K = K \<Longrightarrow>
   concat (dedup_lines seen (split_lines_keep_eol (rstrip (concat K)))) = rstrip (concat K)"
proof (induction K arbitrary: seen rule: linelike.induct)
  case 1
  then show ?case by simp
next
  case (2 x)
  then have "x = []" by simp
  then show ?case by (simp add: rstrip_def split_tail not_zero_Nil)
next
  case (3 x y r)
  then have x: "x \<noteq> []" "NL \<notin> set (butlast x)" and ll: "linelike (y # r)"
    and c: "(y = [] \<and> r = []) \<or> last x = NL" by simp_all
  define seen' where "seen' = (if is_zero_len x then insert (dedup_key x) seen else seen)"
  have keptx: "\<not> (is_zero_len x \<and> dedup_key x \<in> seen)" and keptr: "dedup_lines seen' (y # r) = y # r"
    using dedup_lines_kept_head [OF "3.prems"(2)] by (simp_all add: seen'_def)
  show ?case
  proof (cases "all_space (concat (y # r))")
    case True
    have rs: "rstrip (concat (x # y # r)) = rstrip x"
      using rstrip_append_space [OF True, of x] by simp
    show ?thesis
    proof (cases "rstrip x = []")
      case True
      then show ?thesis unfolding rs by (simp add: split_tail not_zero_Nil)
    next
      case False
      have "split_lines_keep_eol (rstrip x) = [rstrip x, []]"
        using split_tail [OF rstrip_line_no_NL [OF x(2)]] False by simp
      moreover have "\<not> (is_zero_len (rstrip x) \<and> dedup_key (rstrip x) \<in> seen)"
        using keptx by (simp add: is_zero_len_rstrip dedup_key_rstrip)
      ultimately have "dedup_lines seen (split_lines_keep_eol (rstrip x)) = [rstrip x, []]"
        by (auto simp: not_zero_Nil)
      then show ?thesis unfolding rs by simp
    qed
  next
    case False
    then have "\<not> (y = [] \<and> r = [])" by (auto simp: all_space_def)
    then have lx: "last x = NL" using c by blast
    have rs: "rstrip (concat (x # y # r)) = x @ rstrip (concat (y # r))"
      using rstrip_append_keep [OF False, of x] by simp
    have sp: "split_lines_keep_eol (x @ rstrip (concat (y # r)))
              = x # split_lines_keep_eol (rstrip (concat (y # r)))"
      using x lx by (rule split_line)
    have "dedup_lines seen (x # split_lines_keep_eol (rstrip (concat (y # r))))
          = x # dedup_lines seen' (split_lines_keep_eol (rstrip (concat (y # r))))"
      using keptx by (auto simp: seen'_def)
    moreover have "concat (dedup_lines seen' (split_lines_keep_eol (rstrip (concat (y # r)))))
                   = rstrip (concat (y # r))"
      using "3.IH" [OF ll keptr] .
    ultimately show ?thesis unfolding rs sp by simp
  qed
qed

lemma dedup_text_idem: "dedup_text (dedup_text t) = dedup_text t"
proof -
  define K where "K = dedup_lines {} (split_lines_keep_eol t)"
  have ll: "linelike K" unfolding K_def by (intro linelike_dedup linelike_split)
  have fx: "dedup_lines {} K = K" unfolding K_def by (rule dedup_lines_idem)
  have "concat (dedup_lines {} (split_lines_keep_eol (rstrip (concat K)))) = rstrip (concat K)"
    using ll fx by (rule dedup_rstrip_fix)
  then show ?thesis unfolding dedup_text_def K_def [symmetric] by (simp add: rstrip_idem)
qed

lemma unlock_and_dedup_False: "unlock_and_dedup md z False = dedup_text (lock_sub md)"
  by (simp add: unlock_and_dedup_def dedup_text_def Let_def)

lemma strip_len_tags_none: "\<forall>l \<in> set ls. len_search l = None \<Longrightarrow> strip_len_tags ls = ls"
  by (simp add: strip_len_tags_def map_idI)

text \<open>
  C4 (amended). Running \<open>_unlock_and_dedup\<close> on its own output, with the same list of locked
  lines and the same flag, gives the output again, provided the output holds no pair of
  sentinels any more (unlocking leaves it unchanged) and, when length comments are removed,
  no line of the output holds a length comment. Both conditions can fail, because the
  substitutions are applied once and can uncover a new match.
\<close>

theorem unlock_and_dedup_idempotent:
  assumes "lock_sub (unlock_and_dedup md z flag) = unlock_and_dedup md z flag"
    and "flag \<longrightarrow> (\<forall>l \<in> set (split_lines_keep_eol (unlock_and_dedup md z flag)). len_search l = None)"
  shows "unlock_and_dedup (unlock_and_dedup md z flag) z flag = unlock_and_dedup md z flag"
proof (cases flag)
  case False
  have "unlock_and_dedup (unlock_and_dedup md z False) z False
        = dedup_text (lock_sub (unlock_and_dedup md z False))"
    by (rule unlock_and_dedup_False)
  also have "\<dots> = dedup_text (dedup_text (lock_sub md))"
    using assms(1) False by (simp add: unlock_and_dedup_False)
  also have "\<dots> = unlock_and_dedup md z False"
    by (simp add: dedup_text_idem unlock_and_dedup_False)
  finally show ?thesis using False by simp
next
  case True
  define w where "w = unlock_and_dedup md z True"
  have lw: "lock_sub w = w" using assms(1) True by (simp add: w_def)
  have nt: "\<forall>l \<in> set (split_lines_keep_eol w). len_search l = None"
    using assms(2) True by (simp add: w_def)
  then have nz: "\<forall>l \<in> set (split_lines_keep_eol w). \<not> is_zero_len l"
    by (simp add: is_zero_len_def)
  have rw: "rstrip w = w"
    unfolding w_def unlock_and_dedup_def Let_def by (simp add: rstrip_idem)
  have "unlock_and_dedup w z True = rstrip (concat (split_lines_keep_eol w))"
    unfolding unlock_and_dedup_def Let_def lw
    by (simp add: dedup_lines_no_zero [OF nz] strip_len_tags_none [OF nt])
  then have "unlock_and_dedup w z True = w" by (simp add: concat_split rw)
  then show ?thesis using True by (simp add: w_def)
qed

text \<open>
  C4 as stated fails: with nested sentinels the first pass removes the outer pair and the
  second pass the inner one; with a length comment nested in another one and
  \<open>strip_len_tag=True\<close> the first pass leaves a comment that the second pass removes.
\<close>

theorem unlock_and_dedup_idempotent_counterexample:
  "unlock_and_dedup nested_lock_md [] False = ''<!--LOCK-->a<!--/LOCK-->''
   \<and> unlock_and_dedup (unlock_and_dedup nested_lock_md [] False) [] False = ''a''
   \<and> unlock_and_dedup nested_len_md [] True = ''x <!--len:0-->'' @ [NL] @ ''x''
   \<and> unlock_and_dedup (unlock_and_dedup nested_len_md [] True) [] True = ''x '' @ [NL] @ ''x''"
  by code_simp

text \<open>
  An instance of the amended C4 for each value of the flag.
\<close>

theorem unlock_and_dedup_idempotent_witness:
  "unlock_and_dedup (unlock_and_dedup idem_md [] False) [] False
     = ''### {{S1_P1}} <!--len:0-->'' @ [NL] @ ''- text <!--len:12-->''
   \<and> unlock_and_dedup (unlock_and_dedup idem_md [] True) [] True
     = ''### {{S1_P1}} '' @ [NL] @ ''- text''"
proof -
  have f: "unlock_and_dedup idem_md [] False = ''### {{S1_P1}} <!--len:0-->'' @ [NL] @ ''- text <!--len:12-->''"
    by code_simp
  have t: "unlock_and_dedup idem_md [] True = ''### {{S1_P1}} '' @ [NL] @ ''- text''"
    by code_simp
  have 1: "lock_sub (unlock_and_dedup idem_md [] False) = unlock_and_dedup idem_md [] False"
    unfolding f by code_simp
  have 2: "lock_sub (unlock_and_dedup idem_md [] True) = unlock_and_dedup idem_md [] True"
    unfolding t by code_simp
  have 3: "\<forall>l \<in> set (split_lines_keep_eol (unlock_and_dedup idem_md [] True)). len_search l = None"
    unfolding t by code_simp
  have "unlock_and_dedup (unlock_and_dedup idem_md [] False) [] False = unlock_and_dedup idem_md [] False"
    using 1 by (intro unlock_and_dedup_idempotent) simp_all
  moreover have "unlock_and_dedup (unlock_and_dedup idem_md [] True) [] True = unlock_and_dedup idem_md [] True"
    using 2 3 by (intro unlock_and_dedup_idempotent) simp_all
  ultimately show ?thesis using f t by simp
qed

subsection \<open>Locking and unlocking\<close>

lemma lock_lines_prefix:
  "length pre = k \<Longrightarrow>
   lock_lines (zero_lines_from k ls) (pre @ ls) = pre @ map lockify ls"
proof (induction ls arbitrary: pre k)
  case Nil
  then show ?case by simp
next
  case (Cons l ls)
  show ?case
  proof (cases "is_zero_len l")
    case True
    have "lock_lines (zero_lines_from k (l # ls)) (pre @ l # ls)
          = lock_lines (zero_lines_from (k + 1) ls) ((pre @ [lockify l]) @ ls)"
      using True Cons.prems by (simp add: lockify_def list_update_append)
    also have "\<dots> = (pre @ [lockify l]) @ map lockify ls"
      using Cons.prems by (intro Cons.IH) simp
    finally show ?thesis by simp
  next
    case False
    have "lock_lines (zero_lines_from k (l # ls)) (pre @ l # ls)
          = lock_lines (zero_lines_from (k + 1) ls) ((pre @ [l]) @ ls)"
      using False by simp
    also have "\<dots> = (pre @ [l]) @ map lockify ls"
      using Cons.prems by (intro Cons.IH) simp
    finally show ?thesis using False by (simp add: lockify_def)
  qed
qed

lemma lock_zero_len_lines_fst:
  "fst (lock_zero_len_lines M) = concat (map lockify (split_lines_keep_eol M))"
  using lock_lines_prefix [of "[]" 0 "split_lines_keep_eol M"]
  by (simp add: lock_zero_len_lines_def Let_def find_zero_len_lines_def)

lemma expect_prefix: "expect lit t = Some r \<Longrightarrow> expect lit (t @ e) = Some (r @ e)"
proof -
  assume a: "expect lit t = Some r"
  then have t: "take (length lit) t = lit" and r: "r = drop (length lit) t"
    by (auto simp: expect_def split: if_splits)
  from t have "length (take (length lit) t) = length lit" by simp
  then have "length lit \<le> length t" by simp
  then show ?thesis using t r by (simp add: expect_def)
qed

lemma contains_append2: "contains pat ys \<Longrightarrow> contains pat (xs @ ys)"
proof (induction xs)
  case Nil
  then show ?case by simp
next
  case (Cons a xs)
  then show ?case by simp
qed

lemma contains_append1: "contains pat xs \<Longrightarrow> contains pat (xs @ ys)"
proof (induction xs)
  case Nil
  then have "pat = []" by simp
  then show ?case by (cases ys) (simp_all add: expect_def)
next
  case (Cons a xs)
  show ?case
  proof (cases "expect pat (a # xs)")
    case None
    then show ?thesis using Cons by simp
  next
    case (Some r)
    then have "expect pat ((a # xs) @ ys) = Some (r @ ys)" by (rule expect_prefix)
    then show ?thesis by simp
  qed
qed

lemma not_contains_concat:
  "\<not> contains pat (concat ls) \<Longrightarrow> l \<in> set ls \<Longrightarrow> \<not> contains pat l"
proof (induction ls)
  case Nil
  then show ?case by simp
next
  case (Cons x ls)
  then show ?case using contains_append1 [of pat x "concat ls"] contains_append2 [of pat "concat ls" x]
    by auto
qed

lemma expect_long:
  assumes "expect lit (t @ rest) = Some r" "length lit \<le> length t"
  shows "expect lit t \<noteq> None"
  using assms by (auto simp: expect_def split: if_splits)

lemma expect_short_char:
  assumes "expect lit (t @ rest) = Some r" "i < length t" "i < length lit"
  shows "lit ! i = t ! i"
proof -
  from assms(1) have "take (length lit) (t @ rest) = lit"
    by (auto simp: expect_def split: if_splits)
  then have "lit ! i = (take (length lit) (t @ rest)) ! i" by simp
  also have "\<dots> = (t @ rest) ! i" using assms(3) by (rule nth_take)
  also have "\<dots> = t ! i" using assms(2) by (simp add: nth_append)
  finally show ?thesis .
qed

lemma expect_fails_line:
  assumes "\<not> contains lit t" "t \<noteq> []" "last t = NL" "NL \<notin> set lit"
  shows "expect lit (t @ rest) = None"
proof (rule ccontr)
  assume "expect lit (t @ rest) \<noteq> None"
  then obtain r where e: "expect lit (t @ rest) = Some r" by auto
  show False
  proof (cases "length lit \<le> length t")
    case True
    then have "expect lit t \<noteq> None" using e by (rule expect_long [rotated])
    then have "contains lit t" using assms(2) by (cases t) auto
    then show False using assms(1) by simp
  next
    case False
    then have i: "length t - 1 < length lit" "length t - 1 < length t" using assms(2) by auto
    have "lit ! (length t - 1) = t ! (length t - 1)" using e i(2) i(1) by (rule expect_short_char)
    also have "\<dots> = NL" using assms(2,3) by (simp add: last_conv_nth)
    finally have "NL \<in> set lit" using i(1) by (metis nth_mem)
    then show False using assms(4) by simp
  qed
qed

lemma expect_fails_end:
  assumes "\<not> contains lit t"
  shows "expect lit t = None"
  using assms by (cases t) (auto simp: expect_def)

lemma NL_not_in_OPEN: "NL \<notin> set LOCK_OPEN"
  by (simp add: LOCK_OPEN_def)

lemma not_contains_tl: "\<not> contains pat (c # l) \<Longrightarrow> \<not> contains pat l"
  by simp

lemma lock_sub_skip_line:
  "\<not> contains LOCK_OPEN l \<Longrightarrow> l = [] \<or> last l = NL \<Longrightarrow> lock_sub (l @ rest) = l @ lock_sub rest"
proof (induction l)
  case Nil
  then show ?case by simp
next
  case (Cons c l)
  have "expect LOCK_OPEN ((c # l) @ rest) = None"
    using Cons.prems by (intro expect_fails_line NL_not_in_OPEN) auto
  then have m: "lock_match (c # l @ rest) = None" by (simp add: lock_match_def)
  have "\<not> contains LOCK_OPEN l" using Cons.prems(1) by simp
  moreover have "l = [] \<or> last l = NL" using Cons.prems(2) by (cases l) auto
  ultimately have "lock_sub (l @ rest) = l @ lock_sub rest" by (rule Cons.IH)
  then show ?case using m by simp
qed

lemma lock_sub_skip_end: "\<not> contains LOCK_OPEN l \<Longrightarrow> lock_sub l = l"
proof (induction l)
  case Nil
  then show ?case by simp
next
  case (Cons c l)
  have "expect LOCK_OPEN (c # l) = None" using Cons.prems by (rule expect_fails_end)
  then have m: "lock_match (c # l) = None" by (simp add: lock_match_def)
  then show ?case using Cons by simp
qed

lemma expect_char_after:
  assumes "expect lit (t @ u) = Some r" "length t < length lit" "u \<noteq> []"
  shows "lit ! length t = hd u"
proof -
  from assms(1) have "take (length lit) (t @ u) = lit"
    by (auto simp: expect_def split: if_splits)
  then have "lit ! length t = (take (length lit) (t @ u)) ! length t" by simp
  also have "\<dots> = (t @ u) ! length t" using assms(2) by (rule nth_take)
  also have "\<dots> = hd u" using assms(3) by (cases u) (simp_all add: nth_append)
  finally show ?thesis .
qed

lemma CLOSE_inner: "0 < k \<Longrightarrow> k < length LOCK_CLOSE \<Longrightarrow> LOCK_CLOSE ! k \<noteq> CHR ''<''"
proof -
  assume k: "0 < k" "k < length LOCK_CLOSE"
  have kl: "k - 1 < length (tl LOCK_CLOSE)" using k by simp
  have "tl LOCK_CLOSE ! (k - 1) = LOCK_CLOSE ! Suc (k - 1)" using kl by (rule nth_tl)
  then have "LOCK_CLOSE ! k = tl LOCK_CLOSE ! (k - 1)" using k by simp
  with kl have "LOCK_CLOSE ! k \<in> set (tl LOCK_CLOSE)" by (metis nth_mem)
  moreover have "CHR ''<'' \<notin> set (tl LOCK_CLOSE)" by (simp add: LOCK_CLOSE_def)
  ultimately show ?thesis by auto
qed

lemma expect_close_fails:
  assumes "\<not> contains LOCK_CLOSE t" "t \<noteq> []"
  shows "expect LOCK_CLOSE (t @ LOCK_CLOSE @ r) = None"
proof (rule ccontr)
  assume "expect LOCK_CLOSE (t @ LOCK_CLOSE @ r) \<noteq> None"
  then obtain r' where e: "expect LOCK_CLOSE (t @ LOCK_CLOSE @ r) = Some r'" by auto
  show False
  proof (cases "length LOCK_CLOSE \<le> length t")
    case True
    then have "expect LOCK_CLOSE t \<noteq> None" using e by (rule expect_long [rotated])
    then have "contains LOCK_CLOSE t" using assms(2) by (cases t) auto
    then show False using assms(1) by simp
  next
    case False
    then have lt: "length t < length LOCK_CLOSE" by simp
    have "LOCK_CLOSE ! length t = hd (LOCK_CLOSE @ r)"
      using e lt by (rule expect_char_after) (simp add: LOCK_CLOSE_def)
    also have "\<dots> = CHR ''<''" by (simp add: LOCK_CLOSE_def)
    finally show False using CLOSE_inner [of "length t"] assms(2) lt by simp
  qed
qed

lemma find_close_found:
  "\<not> contains LOCK_CLOSE body \<Longrightarrow>
   find_close acc (body @ LOCK_CLOSE @ r) = Some (rev acc @ body, r)"
proof (induction body arbitrary: acc)
  case Nil
  obtain c cs where cc: "LOCK_CLOSE = c # cs" by (simp add: LOCK_CLOSE_def)
  have "expect LOCK_CLOSE (LOCK_CLOSE @ r) = Some r" by (rule expect_append)
  then show ?case by (simp add: cc)
next
  case (Cons c body)
  have "expect LOCK_CLOSE ((c # body) @ LOCK_CLOSE @ r) = None"
    using Cons.prems by (intro expect_close_fails) simp_all
  moreover have "\<not> contains LOCK_CLOSE body" using Cons.prems by simp
  ultimately show ?case using Cons.IH [of "c # acc"] by simp
qed

lemma rstrip_nl_decomp: "\<exists>ws. l = rstrip_nl l @ ws \<and> all_space ws \<and> set ws \<subseteq> {NL}"
proof -
  have "rev l = takeWhile (\<lambda>c. c = NL) (rev l) @ dropWhile (\<lambda>c. c = NL) (rev l)" by simp
  then have "l = rev (dropWhile (\<lambda>c. c = NL) (rev l)) @ rev (takeWhile (\<lambda>c. c = NL) (rev l))"
    by (metis rev_append rev_rev_ident)
  moreover have "set (rev (takeWhile (\<lambda>c. c = NL) (rev l))) \<subseteq> {NL}"
    by (auto dest: set_takeWhileD)
  moreover from this have "all_space (rev (takeWhile (\<lambda>c. c = NL) (rev l)))"
    unfolding all_space_def using NL_space by blast
  ultimately show ?thesis unfolding rstrip_nl_def by blast
qed

lemma contains_rstrip_nl: "contains pat (rstrip_nl l) \<Longrightarrow> contains pat l"
  using rstrip_nl_decomp [of l] contains_append1 by metis

lemma is_zero_len_rstrip_nl: "is_zero_len (rstrip_nl l) = is_zero_len l"
proof -
  obtain ws where x: "l = rstrip_nl l @ ws" and ws: "all_space ws" using rstrip_nl_decomp by blast
  have "len_search (rstrip_nl l @ ws) = len_search (rstrip_nl l)" using ws by (rule len_search_append_space)
  then show ?thesis unfolding is_zero_len_def using x by simp
qed

lemma dedup_key_append_space: "all_space ws \<Longrightarrow> dedup_key (t @ ws) = dedup_key t"
  by (simp add: dedup_key_def strip_def len_sub_append_space rstrip_append_space)

lemma is_zero_len_append_space: "all_space ws \<Longrightarrow> is_zero_len (t @ ws) = is_zero_len t"
  by (simp add: is_zero_len_def len_search_append_space)

lemma dedup_key_rstrip_nl: "dedup_key (rstrip_nl l) = dedup_key l"
proof -
  obtain ws where x: "l = rstrip_nl l @ ws" and ws: "all_space ws" using rstrip_nl_decomp by blast
  show ?thesis using dedup_key_append_space [OF ws, of "rstrip_nl l"] x by simp
qed

lemma all_space_NL: "all_space [NL]"
  by (simp add: all_space_def NL_space)

lemma restore_zero: "is_zero_len (restore l) = is_zero_len l"
  by (simp add: restore_def is_zero_len_append_space all_space_NL is_zero_len_rstrip_nl)

lemma rstrip_nl_line:
  assumes "x \<noteq> []" "NL \<notin> set (butlast x)" "last x = NL"
  shows "rstrip_nl x = butlast x"
proof -
  have x: "x = butlast x @ [NL]" using assms(1,3) by (metis append_butlast_last_id)
  have "dropWhile (\<lambda>c. c = NL) (rev (butlast x)) = rev (butlast x)"
    using assms(2) by (intro dropWhile_id) (cases "rev (butlast x)", auto)
  then have "rstrip_nl (butlast x @ [NL]) = butlast x" by (simp add: rstrip_nl_def)
  then show ?thesis using x by simp
qed

lemma rstrip_nl_no_NL: "NL \<notin> set x \<Longrightarrow> rstrip_nl x = x"
proof -
  assume "NL \<notin> set x"
  then have "dropWhile (\<lambda>c. c = NL) (rev x) = rev x"
    by (intro dropWhile_id) (cases "rev x", auto)
  then show ?thesis by (simp add: rstrip_nl_def)
qed

lemma restore_line:
  assumes "x \<noteq> []" "NL \<notin> set (butlast x)" "last x = NL"
  shows "restore x = x"
proof -
  have "butlast x @ [NL] = x" using assms(1,3) by (metis append_butlast_last_id)
  then show ?thesis using rstrip_nl_line [OF assms] by (simp add: restore_def)
qed

lemma linelike_restore: "linelike ls \<Longrightarrow> linelike (map restore ls)"
proof (induction ls rule: linelike.induct)
  case 1
  then show ?case by simp
next
  case (2 x)
  then show ?case by (simp add: restore_def not_zero_Nil)
next
  case (3 x y r)
  then have x: "x \<noteq> []" "NL \<notin> set (butlast x)" and ll: "linelike (y # r)"
    and c: "(y = [] \<and> r = []) \<or> last x = NL" by simp_all
  have ih: "linelike (restore y # map restore r)" using "3.IH" ll by simp
  show ?case
  proof (cases "last x = NL")
    case True
    then have "restore x = x" using x by (intro restore_line)
    then show ?thesis using ih x True by simp
  next
    case False
    then have yr: "y = []" "r = []" using c by auto
    have nx: "NL \<notin> set x"
    proof
      assume "NL \<in> set x"
      then have "NL \<in> set (butlast x @ [last x])" using x(1) by simp
      then show False using x(2) False by auto
    qed
    have "restore x \<noteq> [] \<and> NL \<notin> set (butlast (restore x))"
      using x(1) x(2) nx by (simp add: restore_def rstrip_nl_no_NL)
    then show ?thesis by (simp add: yr restore_def not_zero_Nil)
  qed
qed

lemma rstrip_member:
  "linelike K \<Longrightarrow> l \<in> set K \<Longrightarrow> \<not> all_space l \<Longrightarrow>
   l \<in> set (split_lines_keep_eol (rstrip (concat K)))
   \<or> rstrip l \<in> set (split_lines_keep_eol (rstrip (concat K)))"
proof (induction K rule: linelike.induct)
  case 1
  then show ?case by simp
next
  case (2 x)
  then show ?case by (simp add: all_space_def)
next
  case (3 x y r)
  then have x: "x \<noteq> []" "NL \<notin> set (butlast x)" and ll: "linelike (y # r)"
    and c: "(y = [] \<and> r = []) \<or> last x = NL" by simp_all
  show ?case
  proof (cases "all_space (concat (y # r))")
    case True
    have rs: "rstrip (concat (x # y # r)) = rstrip x"
      using rstrip_append_space [OF True, of x] by simp
    have "l \<notin> set (y # r)"
    proof
      assume "l \<in> set (y # r)"
      then have "set l \<subseteq> set (concat (y # r))" by auto
      then show False using True "3.prems"(3) unfolding all_space_def by blast
    qed
    then have lx: "l = x" using "3.prems"(2) by simp
    have "rstrip x \<noteq> []"
    proof
      assume "rstrip x = []"
      then have "all_space x" using rstrip_decomp [of x] by auto
      then show False using "3.prems"(3) lx by simp
    qed
    then have "split_lines_keep_eol (rstrip x) = [rstrip x, []]"
      using split_tail [OF rstrip_line_no_NL [OF x(2)]] by simp
    then show ?thesis unfolding rs lx by simp
  next
    case False
    then have "\<not> (y = [] \<and> r = [])" by (auto simp: all_space_def)
    then have lx: "last x = NL" using c by blast
    have rs: "rstrip (concat (x # y # r)) = x @ rstrip (concat (y # r))"
      using rstrip_append_keep [OF False, of x] by simp
    have sp: "split_lines_keep_eol (x @ rstrip (concat (y # r)))
              = x # split_lines_keep_eol (rstrip (concat (y # r)))"
      using x lx by (rule split_line)
    show ?thesis
    proof (cases "l = x")
      case True
      then show ?thesis unfolding rs sp by simp
    next
      case False
      then have "l \<in> set (y # r)" using "3.prems"(2) by simp
      from "3.IH" [OF ll this "3.prems"(3)] show ?thesis unfolding rs sp by auto
    qed
  qed
qed

lemma zero_lines_from_mem:
  "(i, o') \<in> set (zero_lines_from k ls) \<Longrightarrow>
   k \<le> i \<and> i - k < length ls \<and> is_zero_len (ls ! (i - k)) \<and> o' = rstrip_nl (ls ! (i - k))"
proof (induction ls arbitrary: k)
  case Nil
  then show ?case by simp
next
  case (Cons l ls)
  show ?case
  proof (cases "i = k")
    case True
    have "(i, o') \<notin> set (zero_lines_from (k + 1) ls)"
      using Cons.IH [of "k + 1"] True by auto
    then show ?thesis using Cons.prems True by (auto split: if_splits)
  next
    case False
    then have "(i, o') \<in> set (zero_lines_from (k + 1) ls)"
      using Cons.prems by (auto split: if_splits)
    from Cons.IH [OF this] have "k + 1 \<le> i" "i - (k + 1) < length ls"
      "is_zero_len (ls ! (i - (k + 1)))" "o' = rstrip_nl (ls ! (i - (k + 1)))" by simp_all
    moreover from this have "(l # ls) ! (i - k) = ls ! (i - (k + 1))"
      by (simp add: nth_Cons')
    ultimately show ?thesis by auto
  qed
qed

lemma kept_line_member:
  assumes "i < length ls" "\<not> removed_line {} ls i"
  shows "ls ! i \<in> set (dedup_lines {} ls)"
proof -
  have "i \<in> set (filter (\<lambda>i. \<not> removed_line {} ls i) [0..<length ls])" using assms by simp
  then show ?thesis unfolding dedup_lines_seen [of "{}" ls] by (metis imageI set_map)
qed

lemma rstrip_nl_snoc: "rstrip_nl (t @ [NL]) = rstrip_nl t"
  by (simp add: rstrip_nl_def)

lemma rstrip_nl_idem: "rstrip_nl (rstrip_nl t) = rstrip_nl t"
proof -
  define d where "d = dropWhile (\<lambda>c. c = NL) (rev t)"
  have "d = [] \<or> \<not> (hd d = NL)"
    unfolding d_def using hd_dropWhile [of "\<lambda>c. c = NL" "rev t"] by blast
  then have "dropWhile (\<lambda>c. c = NL) d = d" by (rule dropWhile_id)
  then show ?thesis unfolding d_def by (simp add: rstrip_nl_def)
qed

lemma zero_not_all_space: "is_zero_len l \<Longrightarrow> \<not> all_space l"
  using len_search_space [of l] by (auto simp: is_zero_len_def)

lemma lock_sub_span:
  assumes "\<not> contains LOCK_CLOSE body"
  shows "lock_sub (LOCK_OPEN @ body @ LOCK_CLOSE @ rest) = body @ lock_sub rest"
proof -
  obtain c cs where cc: "LOCK_OPEN = c # cs" by (simp add: LOCK_OPEN_def)
  have "expect LOCK_OPEN (LOCK_OPEN @ body @ LOCK_CLOSE @ rest)
        = Some (body @ LOCK_CLOSE @ rest)" by (rule expect_append)
  then have m: "lock_match (LOCK_OPEN @ body @ LOCK_CLOSE @ rest) = Some (body, rest)"
    using find_close_found [OF assms, of "[]" rest] by (simp add: lock_match_def)
  have "lock_sub (c # (cs @ body @ LOCK_CLOSE @ rest)) = body @ lock_sub rest"
    using m unfolding cc by simp
  then show ?thesis by (simp add: cc)
qed

lemma lock_sub_NL: "lock_sub (NL # rest) = NL # lock_sub rest"
proof -
  have "lock_match (NL # rest) = None" by (simp add: lock_match_def expect_def LOCK_OPEN_def)
  then show ?thesis by simp
qed

lemma line_no_NL:
  assumes "x \<noteq> []" "NL \<notin> set (butlast x)" "last x \<noteq> NL"
  shows "NL \<notin> set x"
proof
  assume "NL \<in> set x"
  then have "NL \<in> set (butlast x @ [last x])" using assms(1) by simp
  then show False using assms(2,3) by auto
qed

lemma wrap_line:
  assumes "x \<noteq> []" "NL \<notin> set (butlast x)" "last x = NL"
  shows "wrap (True, x) = LOCK_OPEN @ butlast x @ LOCK_CLOSE @ [NL]"
proof -
  have x: "x = butlast x @ [NL]" using assms(1,3) by (metis append_butlast_last_id)
  have r: "rstrip_nl x = butlast x" using assms by (rule rstrip_nl_line)
  have "drop (length (butlast x)) (butlast x @ [NL]) = [NL]" by simp
  then have "drop (length (butlast x)) x = [NL]" using x by simp
  then show ?thesis by (simp add: wrap_def r)
qed

lemma wrap_last: "NL \<notin> set x \<Longrightarrow> wrap (True, x) = LOCK_OPEN @ x @ LOCK_CLOSE"
  by (simp add: wrap_def rstrip_nl_no_NL)

lemma unlock_wrapped:
  "linelike (map snd gs) \<Longrightarrow>
   \<forall>t \<in> set gs. \<not> contains LOCK_OPEN (snd t) \<and> \<not> contains LOCK_CLOSE (snd t)
                  \<and> (fst t \<longrightarrow> snd t \<noteq> []) \<Longrightarrow>
   lock_sub (concat (map wrap gs)) = concat (map snd gs)"
proof (induction gs rule: induct_list012)
  case 1
  then show ?case by simp
next
  case (2 t)
  then have "snd t = []" by simp
  moreover from this have "\<not> fst t" using 2(2) by simp
  ultimately show ?case by (simp add: wrap_def)
next
  case (3 t u gs)
  define x where "x = snd t"
  define R where "R = concat (map wrap (u # gs))"
  have x: "x \<noteq> []" "NL \<notin> set (butlast x)" and ll: "linelike (map snd (u # gs))"
    and c: "(snd u = [] \<and> gs = []) \<or> last x = NL"
    using "3.prems"(1) by (simp_all add: x_def)
  have nx: "\<not> contains LOCK_OPEN x" "\<not> contains LOCK_CLOSE x" using "3.prems"(2) by (simp_all add: x_def)
  have ih: "lock_sub R = concat (map snd (u # gs))"
    unfolding R_def using "3.IH"(2) ll "3.prems"(2) by simp
  have cl: "concat (map wrap (t # u # gs)) = wrap t @ R" by (simp add: R_def)
  have cr: "concat (map snd (t # u # gs)) = x @ concat (map snd (u # gs))" by (simp add: x_def)
  have last_R: "R = []" if "last x \<noteq> NL"
  proof -
    from that c have u: "snd u = []" "gs = []" by auto
    then have "\<not> fst u" using "3.prems"(2) by simp
    then show ?thesis using u by (simp add: R_def wrap_def)
  qed
  have te: "t = (fst t, x)" by (simp add: x_def)
  show ?case
  proof (cases "fst t")
    case True
    then have wt: "wrap t = wrap (True, x)" using te by simp
    show ?thesis
    proof (cases "last x = NL")
      case nl: True
      have w: "wrap t = LOCK_OPEN @ butlast x @ LOCK_CLOSE @ [NL]"
        unfolding wt using x nl by (rule wrap_line)
      have xe: "butlast x @ [NL] = x" using x(1) nl by (metis append_butlast_last_id)
      have "\<not> contains LOCK_CLOSE (butlast x)"
        using nx(2) contains_append1 [of LOCK_CLOSE "butlast x" "[NL]"] unfolding xe by blast
      then have s1: "lock_sub (LOCK_OPEN @ butlast x @ LOCK_CLOSE @ (NL # R))
                 = butlast x @ lock_sub (NL # R)"
        by (rule lock_sub_span)
      have "wrap t @ R = LOCK_OPEN @ butlast x @ LOCK_CLOSE @ (NL # R)" unfolding w by simp
      then have "lock_sub (wrap t @ R) = butlast x @ NL # lock_sub R"
        by (simp only: s1 lock_sub_NL)
      also have "\<dots> = x @ lock_sub R" using xe by (metis append.assoc append_Cons append_Nil)
      finally show ?thesis unfolding cl cr ih .
    next
      case nl: False
      have n: "NL \<notin> set x" using x nl by (rule line_no_NL)
      have w: "wrap t = LOCK_OPEN @ x @ LOCK_CLOSE" unfolding wt using n by (rule wrap_last)
      have r: "R = []" using nl by (rule last_R)
      have e: "concat (map snd (u # gs)) = []" using ih unfolding r by simp
      have "lock_sub (LOCK_OPEN @ x @ LOCK_CLOSE @ []) = x @ lock_sub []"
        using nx(2) by (rule lock_sub_span)
      then have "lock_sub (wrap t @ R) = x" unfolding w r by simp
      then show ?thesis unfolding cl cr e by simp
    qed
  next
    case False
    then have w: "wrap t = x" by (simp add: wrap_def x_def)
    show ?thesis
    proof (cases "last x = NL")
      case True
      have "lock_sub (x @ R) = x @ lock_sub R"
        using nx(1) True by (intro lock_sub_skip_line) simp_all
      then show ?thesis unfolding cl cr w ih .
    next
      case nl: False
      have r: "R = []" using nl by (rule last_R)
      have e: "concat (map snd (u # gs)) = []" using ih unfolding r by simp
      have "lock_sub x = x" using nx(1) by (rule lock_sub_skip_end)
      then show ?thesis unfolding cl cr w r e by simp
    qed
  qed
qed

lemma generated_unlock: "generated gs \<Longrightarrow> lock_sub (concat (map wrap gs)) = concat (map snd gs)"
proof (rule unlock_wrapped)
  assume g: "generated gs"
  then show "linelike (map snd gs)" by (simp add: generated_def)
  show "\<forall>t \<in> set gs. \<not> contains LOCK_OPEN (snd t) \<and> \<not> contains LOCK_CLOSE (snd t)
                  \<and> (fst t \<longrightarrow> snd t \<noteq> [])"
    using g not_zero_Nil by (auto simp: generated_def)
qed

lemma not_contains_snoc_NL:
  assumes "\<not> contains pat l" "NL \<notin> set pat" "pat \<noteq> []"
  shows "\<not> contains pat (l @ [NL])"
  using assms(1)
proof (induction l)
  case Nil
  have "expect pat [NL] = None"
  proof (rule ccontr)
    assume "expect pat [NL] \<noteq> None"
    then have "take (length pat) [NL] = pat" by (auto simp: expect_def split: if_splits)
    then have "set pat \<subseteq> {NL}" by (metis set_take_subset list.set(1) list.set(2))
    then show False using assms(2,3) by (cases pat) auto
  qed
  then show ?case using assms(3) by simp
next
  case (Cons c l)
  have t: "\<not> contains pat (l @ [NL])" using Cons by simp
  have "expect pat ((c # l) @ [NL]) = None"
  proof (rule ccontr)
    assume "expect pat ((c # l) @ [NL]) \<noteq> None"
    then obtain r where e: "expect pat ((c # l) @ [NL]) = Some r" by auto
    show False
    proof (cases "length pat \<le> length (c # l)")
      case True
      then have "expect pat (c # l) \<noteq> None" using e by (rule expect_long [rotated])
      then show False using Cons.prems by simp
    next
      case False
      then have i: "length (c # l) < length pat" by simp
      have "pat ! length (c # l) = ((c # l) @ [NL]) ! length (c # l)"
      proof -
        from e have "take (length pat) ((c # l) @ [NL]) = pat"
          by (auto simp: expect_def split: if_splits)
        then have "pat ! length (c # l) = take (length pat) ((c # l) @ [NL]) ! length (c # l)" by simp
        also have "\<dots> = ((c # l) @ [NL]) ! length (c # l)" using i by (rule nth_take)
        finally show ?thesis .
      qed
      also have "\<dots> = NL" by (rule nth_append_length)
      finally have "NL \<in> set pat" using i by (metis nth_mem)
      then show False using assms(2) by simp
    qed
  qed
  then show ?case using t by simp
qed

lemma NL_not_in_CLOSE: "NL \<notin> set LOCK_CLOSE"
  by (simp add: LOCK_CLOSE_def)

lemma restore_no_sentinel:
  assumes "\<not> contains LOCK_OPEN l" "\<not> contains LOCK_CLOSE l"
  shows "\<not> contains LOCK_OPEN (restore l) \<and> \<not> contains LOCK_CLOSE (restore l)"
proof (cases "is_zero_len l")
  case False
  then show ?thesis using assms by (simp add: restore_def)
next
  case True
  have a: "\<not> contains LOCK_OPEN (rstrip_nl l)" "\<not> contains LOCK_CLOSE (rstrip_nl l)"
    using assms contains_rstrip_nl by blast+
  have "\<not> contains LOCK_OPEN (rstrip_nl l @ [NL])"
    using a(1) NL_not_in_OPEN by (rule not_contains_snoc_NL) (simp add: LOCK_OPEN_def)
  moreover have "\<not> contains LOCK_CLOSE (rstrip_nl l @ [NL])"
    using a(2) NL_not_in_CLOSE by (rule not_contains_snoc_NL) (simp add: LOCK_CLOSE_def)
  ultimately show ?thesis using True by (simp add: restore_def)
qed

lemma wrap_tagged: "wrap (is_zero_len l, restore l) = lockify l"
proof (cases "is_zero_len l")
  case False
  then show ?thesis by (simp add: wrap_def lockify_def restore_def)
next
  case True
  have r: "rstrip_nl (rstrip_nl l @ [NL]) = rstrip_nl l"
    by (simp only: rstrip_nl_snoc rstrip_nl_idem)
  have "wrap (True, rstrip_nl l @ [NL])
        = LOCK_OPEN @ rstrip_nl l @ LOCK_CLOSE @ drop (length (rstrip_nl l)) (rstrip_nl l @ [NL])"
    unfolding wrap_def fst_conv snd_conv r by simp
  then show ?thesis using True by (simp add: lockify_def restore_def)
qed

lemma tagged_text: "concat (map wrap (tagged M)) = fst (lock_zero_len_lines M)"
  unfolding lock_zero_len_lines_fst tagged_def by (simp add: comp_def wrap_tagged)

lemma tagged_lines: "map snd (tagged M) = map restore (split_lines_keep_eol M)"
  by (simp add: tagged_def comp_def)

lemma generated_tagged:
  assumes "\<not> contains LOCK_OPEN M" "\<not> contains LOCK_CLOSE M"
  shows "generated (tagged M)"
proof -
  define ls where "ls = split_lines_keep_eol M"
  have c: "concat ls = M" unfolding ls_def by (rule concat_split)
  have a: "\<not> contains LOCK_OPEN (concat ls)" unfolding c by (rule assms(1))
  have b: "\<not> contains LOCK_CLOSE (concat ls)" unfolding c by (rule assms(2))
  have 1: "linelike (map snd (tagged M))"
    unfolding tagged_lines by (intro linelike_restore linelike_split)
  have 2: "\<not> contains LOCK_OPEN (snd t) \<and> \<not> contains LOCK_CLOSE (snd t)
           \<and> (fst t \<longrightarrow> is_zero_len (snd t))" if "t \<in> set (tagged M)" for t
  proof -
    from that obtain l where l: "l \<in> set ls" and t: "t = (is_zero_len l, restore l)"
      by (auto simp: tagged_def ls_def)
    have "\<not> contains LOCK_OPEN l" using a l by (rule not_contains_concat)
    moreover have "\<not> contains LOCK_CLOSE l" using b l by (rule not_contains_concat)
    ultimately have "\<not> contains LOCK_OPEN (restore l) \<and> \<not> contains LOCK_CLOSE (restore l)"
      by (rule restore_no_sentinel)
    then show ?thesis by (simp add: t restore_zero)
  qed
  show ?thesis unfolding generated_def using 1 2 by blast
qed

lemma tagged_locked_line:
  assumes "(idx, origin_ln) \<in> set (snd (lock_zero_len_lines M))"
  shows "idx < length (tagged M) \<and> fst (tagged M ! idx) \<and> rstrip_nl (snd (tagged M ! idx)) = origin_ln"
proof -
  define ls where "ls = split_lines_keep_eol M"
  from assms have "(idx, origin_ln) \<in> set (zero_lines_from 0 ls)"
    by (simp add: lock_zero_len_lines_def Let_def find_zero_len_lines_def ls_def)
  from zero_lines_from_mem [OF this]
  have i: "idx < length ls" and zl: "is_zero_len (ls ! idx)" and o: "origin_ln = rstrip_nl (ls ! idx)"
    by simp_all
  have t: "tagged M ! idx = (is_zero_len (ls ! idx), restore (ls ! idx))"
    using i by (simp add: tagged_def ls_def)
  have "restore (ls ! idx) = origin_ln @ [NL]" using zl o by (simp add: restore_def)
  then have "rstrip_nl (snd (tagged M ! idx)) = rstrip_nl (rstrip_nl (ls ! idx) @ [NL])"
    unfolding t o by simp
  also have "\<dots> = origin_ln" unfolding o by (simp only: rstrip_nl_snoc rstrip_nl_idem)
  finally show ?thesis using i zl t by (simp add: tagged_def ls_def)
qed

lemma wrapped_line_kept:
  assumes g: "generated gs" and i: "i < length gs" and w: "fst (gs ! i)"
    and first: "\<not> earlier_same_key (map snd gs) i"
  shows "(rstrip_nl (snd (gs ! i)) \<in> rstrip_nl ` set (split_lines_keep_eol
            (unlock_and_dedup (concat (map wrap gs)) z False))
          \<or> rstrip (rstrip_nl (snd (gs ! i))) \<in> set (split_lines_keep_eol
            (unlock_and_dedup (concat (map wrap gs)) z False)))
         \<and> rstrip_nl (rstrip_nl (snd (gs ! i))) = rstrip_nl (snd (gs ! i))"
proof -
  define U where "U = map snd gs"
  define K where "K = dedup_lines {} U"
  define L where "L = snd (gs ! i)"
  define res where "res = unlock_and_dedup (concat (map wrap gs)) z False"
  have lU: "linelike U" using g by (simp add: generated_def U_def)
  have "res = rstrip (concat (dedup_lines {} (split_lines_keep_eol (concat U))))"
    unfolding res_def unlock_and_dedup_False dedup_text_def generated_unlock [OF g] U_def ..
  then have res: "res = rstrip (concat K)"
    unfolding K_def by (simp add: linelike_split_concat [OF lU])
  have lK: "linelike K" unfolding K_def using lU by (rule linelike_dedup)
  have iU: "i < length U" using i by (simp add: U_def)
  have LU: "U ! i = L" using i by (simp add: U_def L_def)
  have "gs ! i \<in> set gs" using i by simp
  then have zl: "is_zero_len L" using g w by (auto simp: generated_def L_def)
  have "\<not> removed_line {} U i" using first by (simp add: removed_line_def U_def)
  then have "U ! i \<in> set K" unfolding K_def using iU by (intro kept_line_member)
  then have LK: "L \<in> set K" unfolding LU .
  have "\<not> all_space L" using zl by (rule zero_not_all_space)
  from rstrip_member [OF lK LK this]
  have d: "L \<in> set (split_lines_keep_eol res) \<or> rstrip L \<in> set (split_lines_keep_eol res)"
    unfolding res .
  obtain ws where ws: "L = rstrip_nl L @ ws" "all_space ws" using rstrip_nl_decomp by blast
  have "rstrip (rstrip_nl L @ ws) = rstrip (rstrip_nl L)" using ws(2) by (rule rstrip_append_space)
  then have r: "rstrip L = rstrip (rstrip_nl L)" using ws(1) by simp
  have "rstrip_nl L \<in> rstrip_nl ` set (split_lines_keep_eol res)
        \<or> rstrip (rstrip_nl L) \<in> set (split_lines_keep_eol res)"
  proof (rule disjE [OF d])
    assume "L \<in> set (split_lines_keep_eol res)"
    then have "rstrip_nl L \<in> rstrip_nl ` set (split_lines_keep_eol res)" by (rule imageI)
    then show ?thesis by (rule disjI1)
  next
    assume "rstrip L \<in> set (split_lines_keep_eol res)"
    then show ?thesis unfolding r by (rule disjI2)
  qed
  moreover have "rstrip_nl (rstrip_nl L) = rstrip_nl L" by (rule rstrip_nl_idem)
  ultimately show ?thesis unfolding res_def L_def by (rule conjI)
qed

text \<open>
  C2 (amended). Let a text come back from a generation step with some of its lines still
  wrapped in the sentinels, where no line contains a sentinel of its own and every wrapped
  line has a zero length hint; the other lines are arbitrary. The locked text of a document
  \<open>M\<close> without sentinels is such a text, and each locked line of \<open>M\<close> is a wrapped line
  of it. Unlocking gives the lines without the sentinels. A wrapped line that is the first
  zero-hint line of the text with its key is a line of \<open>_unlock_and_dedup\<close> without
  stripping, byte for byte up to the line terminator, or it is there with its trailing
  white space removed (the final \<open>rstrip\<close> does that to the last line); so a wrapped line
  without trailing white space that is the first of its key is in the result unchanged.
  The list of locked lines that is passed along plays no part.
\<close>

theorem lock_roundtrip:
  "(\<not> contains LOCK_OPEN M \<and> \<not> contains LOCK_CLOSE M \<longrightarrow>
      generated (tagged M) \<and> concat (map wrap (tagged M)) = fst (lock_zero_len_lines M)
      \<and> (\<forall>(idx, origin_ln) \<in> set (snd (lock_zero_len_lines M)).
           idx < length (tagged M) \<and> fst (tagged M ! idx)
           \<and> rstrip_nl (snd (tagged M ! idx)) = origin_ln))
   \<and> (generated gs \<longrightarrow> lock_sub (concat (map wrap gs)) = concat (map snd gs))
   \<and> (generated gs \<and> i < length gs \<and> fst (gs ! i) \<and> \<not> earlier_same_key (map snd gs) i \<longrightarrow>
        (rstrip_nl (snd (gs ! i)) \<in> rstrip_nl ` set (split_lines_keep_eol
             (unlock_and_dedup (concat (map wrap gs)) zero False))
         \<or> rstrip (rstrip_nl (snd (gs ! i))) \<in> set (split_lines_keep_eol
             (unlock_and_dedup (concat (map wrap gs)) zero False)))
        \<and> (rstrip (rstrip_nl (snd (gs ! i))) = rstrip_nl (snd (gs ! i)) \<longrightarrow>
             rstrip_nl (snd (gs ! i)) \<in> rstrip_nl ` set (split_lines_keep_eol
               (unlock_and_dedup (concat (map wrap gs)) zero False))))"
proof (intro conjI impI)
  assume "\<not> contains LOCK_OPEN M \<and> \<not> contains LOCK_CLOSE M"
  then show "generated (tagged M)" using generated_tagged by blast
next
  show "concat (map wrap (tagged M)) = fst (lock_zero_len_lines M)" by (rule tagged_text)
next
  show "\<forall>(idx, origin_ln) \<in> set (snd (lock_zero_len_lines M)).
           idx < length (tagged M) \<and> fst (tagged M ! idx)
           \<and> rstrip_nl (snd (tagged M ! idx)) = origin_ln"
    using tagged_locked_line [of _ _ M] by blast
next
  assume "generated gs"
  then show "lock_sub (concat (map wrap gs)) = concat (map snd gs)" by (rule generated_unlock)
next
  assume a: "generated gs \<and> i < length gs \<and> fst (gs ! i) \<and> \<not> earlier_same_key (map snd gs) i"
  then have g: "generated gs" and i: "i < length gs" and w: "fst (gs ! i)"
    and f: "\<not> earlier_same_key (map snd gs) i" by simp_all
  from wrapped_line_kept [OF g i w f, of zero]
  show "rstrip_nl (snd (gs ! i)) \<in> rstrip_nl ` set (split_lines_keep_eol
             (unlock_and_dedup (concat (map wrap gs)) zero False))
         \<or> rstrip (rstrip_nl (snd (gs ! i))) \<in> set (split_lines_keep_eol
             (unlock_and_dedup (concat (map wrap gs)) zero False))"
    by (rule conjunct1)
next
  define res where "res = unlock_and_dedup (concat (map wrap gs)) zero False"
  define o' where "o' = rstrip_nl (snd (gs ! i))"
  assume a: "generated gs \<and> i < length gs \<and> fst (gs ! i) \<and> \<not> earlier_same_key (map snd gs) i"
    and nt: "rstrip (rstrip_nl (snd (gs ! i))) = rstrip_nl (snd (gs ! i))"
  then have g: "generated gs" and i: "i < length gs" and w: "fst (gs ! i)"
    and f: "\<not> earlier_same_key (map snd gs) i" by simp_all
  from wrapped_line_kept [OF g i w f, of zero]
  have d: "o' \<in> rstrip_nl ` set (split_lines_keep_eol res) \<or> o' \<in> set (split_lines_keep_eol res)"
    and n: "rstrip_nl o' = o'"
    unfolding res_def o'_def nt by (rule conjunct1, rule conjunct2)
  have "o' \<in> rstrip_nl ` set (split_lines_keep_eol res)"
  proof (rule disjE [OF d])
    assume "o' \<in> set (split_lines_keep_eol res)"
    then have "rstrip_nl o' \<in> rstrip_nl ` set (split_lines_keep_eol res)" by (rule imageI)
    then show ?thesis unfolding n .
  qed
  then show "rstrip_nl (snd (gs ! i)) \<in> rstrip_nl ` set (split_lines_keep_eol
               (unlock_and_dedup (concat (map wrap gs)) zero False))"
    unfolding res_def o'_def .
qed

text \<open>
  C2 as stated fails in these ways, the first three with the locked text passed on as it
  is: a second zero-hint line with the key of an earlier one is dropped although its bytes
  differ; a locked line that ends the text loses its trailing blank; a closing sentinel
  inside a locked line ends the match early, so that the line comes back changed. And
  with a generation step that leaves the locked text as it is and only adds in front of
  it: a zero-hint line with the key of the locked line makes the locked line disappear;
  a line with an opening sentinel makes the locked line come back with a sentinel; text
  put on the line of the locked line stays on that line.
\<close>

theorem lock_roundtrip_counterexample:
  "snd (lock_zero_len_lines dup_key_md)
     = [(0, ''### {{S1_P1}} <!--len:0-->''), (1, ''### {{S1_P1}}  <!-- len:0 -->'')]
   \<and> unlock_and_dedup (fst (lock_zero_len_lines dup_key_md)) (snd (lock_zero_len_lines dup_key_md)) False
     = ''### {{S1_P1}} <!--len:0-->'' @ [NL] @ ''- x <!--len:12-->''
   \<and> snd (lock_zero_len_lines trailing_md) = [(0, ''a <!--len:0--> '')]
   \<and> unlock_and_dedup (fst (lock_zero_len_lines trailing_md)) (snd (lock_zero_len_lines trailing_md)) False
     = ''a <!--len:0-->''
   \<and> snd (lock_zero_len_lines sentinel_md) = [(0, ''a<!--/LOCK-->b <!--len:0-->'')]
   \<and> unlock_and_dedup (fst (lock_zero_len_lines sentinel_md)) (snd (lock_zero_len_lines sentinel_md)) False
     = ''ab <!--len:0--><!--/LOCK-->''
   \<and> snd (lock_zero_len_lines spaced_md) = [(0, ''x  <!--len:0-->'')]
   \<and> unlock_and_dedup (''x <!--len:0-->'' @ [NL] @ fst (lock_zero_len_lines spaced_md))
        (snd (lock_zero_len_lines spaced_md)) False
     = ''x <!--len:0-->'' @ [NL] @ ''- body <!--len:12-->''
   \<and> unlock_and_dedup (''<!--LOCK-->'' @ [NL] @ fst (lock_zero_len_lines spaced_md))
        (snd (lock_zero_len_lines spaced_md)) False
     = [NL] @ ''<!--LOCK-->x  <!--len:0-->'' @ [NL] @ ''- body <!--len:12-->''
   \<and> unlock_and_dedup (''> '' @ fst (lock_zero_len_lines spaced_md))
        (snd (lock_zero_len_lines spaced_md)) False
     = ''> x  <!--len:0-->'' @ [NL] @ ''- body <!--len:12-->''"
  by code_simp

text \<open>
  An instance of the amended C2: the locked text of \<open>lock_md\<close>, and a generated text that
  keeps its two locked lines, rewrites the body, adds a line and ends without a line feed.
\<close>

theorem lock_roundtrip_witness:
  "generated (tagged lock_md)
   \<and> concat (map wrap (tagged lock_md)) = fst (lock_zero_len_lines lock_md)
   \<and> (2, ''### {{S1_P2}} <!--len:0-->'') \<in> set (snd (lock_zero_len_lines lock_md))
   \<and> rstrip_nl (snd (tagged lock_md ! 2)) = ''### {{S1_P2}} <!--len:0-->''
   \<and> lock_sub (concat (map wrap answer_lines)) = concat (map snd answer_lines)
   \<and> ''### {{S1_P2}} <!--len:0-->'' \<in> rstrip_nl ` set (split_lines_keep_eol
        (unlock_and_dedup (concat (map wrap answer_lines)) (snd (lock_zero_len_lines lock_md)) False))"
proof -
  have a: "\<not> contains LOCK_OPEN lock_md \<and> \<not> contains LOCK_CLOSE lock_md" by code_simp
  have z: "(2, ''### {{S1_P2}} <!--len:0-->'') \<in> set (snd (lock_zero_len_lines lock_md))" by code_simp
  have g: "generated answer_lines" by code_simp
  have h: "generated answer_lines \<and> 3 < length answer_lines \<and> fst (answer_lines ! 3)
           \<and> \<not> earlier_same_key (map snd answer_lines) 3" by code_simp
  have o: "rstrip_nl (snd (answer_lines ! 3)) = ''### {{S1_P2}} <!--len:0-->''" by code_simp
  have nt: "rstrip ''### {{S1_P2}} <!--len:0-->'' = ''### {{S1_P2}} <!--len:0-->''" by code_simp
  note t = lock_roundtrip [of lock_md answer_lines 3 "snd (lock_zero_len_lines lock_md)"]
  note t1 = t [THEN conjunct1, THEN mp, OF a]
  note 1 = t1 [THEN conjunct1]
  note 2 = t1 [THEN conjunct2, THEN conjunct1]
  note 3 = t1 [THEN conjunct2, THEN conjunct2]
  note 4 = bspec [OF 3 z, unfolded prod.case, THEN conjunct2, THEN conjunct2]
  note 5 = t [THEN conjunct2, THEN conjunct1, THEN mp, OF g]
  note 6 = t [THEN conjunct2, THEN conjunct2, THEN mp, OF h, THEN conjunct2, unfolded o, THEN mp, OF nt]
  show ?thesis by (intro conjI) (rule 1, rule 2, rule z, rule 4, rule 5, rule 6)
qed

subsection \<open>Stock-photo search\<close>

text \<open>
  C10. \<open>unsplash_search\<close> returns the empty list, raising nothing, whenever the effective
  \<open>per_page\<close> (\<open>limit\<close> when it is given, else \<open>per_page\<close>) is at most 0: the test comes
  before the validation of \<open>orientation\<close>, \<open>size\<close> and \<open>order_by\<close> and before the key
  lookup, so the result does not depend on them, whatever their values and whatever the
  network and the key store answer.
\<close>

theorem unsplash_search_nonpositive_per_page:
  "(case limit of Some l \<Rightarrow> l | None \<Rightarrow> per_page) \<le> 0 \<Longrightarrow>
   unsplash_search w query per_page limit orientation sz order_by = Inr []"
  by (simp add: unsplash_search_def)

theorem unsplash_search_nonpositive_per_page_witness:
  "unsplash_search
     \<lparr>ensure_key = None, search_get = (\<lambda>_ _ _ _ _. Inl RequestException),
      image_get = (\<lambda>_. Inl RequestException), shuffle = (\<lambda>bs. bs)\<rparr>
     ''cat'' 3 (Some 0) ''diagonal'' ''huge'' ''oldest'' = Inr []
   \<and> unsplash_search
     \<lparr>ensure_key = None, search_get = (\<lambda>_ _ _ _ _. Inl RequestException),
      image_get = (\<lambda>_. Inl RequestException), shuffle = (\<lambda>bs. bs)\<rparr>
     ''cat'' 3 None ''diagonal'' ''huge'' ''oldest'' = Inl UnsplashError"
proof -
  have "unsplash_search
     \<lparr>ensure_key = None, search_get = (\<lambda>_ _ _ _ _. Inl RequestException),
      image_get = (\<lambda>_. Inl RequestException), shuffle = (\<lambda>bs. bs)\<rparr>
     ''cat'' 3 (Some 0) ''diagonal'' ''huge'' ''oldest'' = Inr []"
    by (rule unsplash_search_nonpositive_per_page) simp
  moreover have "unsplash_search
     \<lparr>ensure_key = None, search_get = (\<lambda>_ _ _ _ _. Inl RequestException),
      image_get = (\<lambda>_. Inl RequestException), shuffle = (\<lambda>bs. bs)\<rparr>
     ''cat'' 3 None ''diagonal'' ''huge'' ''oldest'' = Inl UnsplashError"
    by code_simp
  ultimately show ?thesis by simp
qed

end
